theory Spec2Isabelle
  imports Complex_Main "HOL-Library.AList"
begin

section \<open>Data model (app/models.py)\<close>

text \<open>
  The job status enumeration \<^verbatim>\<open>TaskStatus\<close>. \<open>PENDING\<close> is the state of a created
  job, \<open>PROCESSING\<close>, \<open>TRANSCRIBING\<close>, \<open>ALIGNING\<close> and \<open>DIARIZING\<close> are the running
  sub-phases, \<open>COMPLETED\<close> and \<open>FAILED\<close> are the terminal states.
\<close>

datatype TaskStatus =
  PENDING | PROCESSING | TRANSCRIBING | ALIGNING | DIARIZING | COMPLETED | FAILED

type_synonym task_id = string

text \<open>
  A \<^verbatim>\<open>datetime\<close> is modelled by its number of microseconds (the resolution of Python's
  \<^verbatim>\<open>datetime\<close>) since a fixed origin. Every call of \<^verbatim>\<open>datetime.utcnow()\<close> is a reading
  of the environment's clock, so each operation that may read the clock takes that
  reading as its argument \<open>now\<close>.
\<close>

type_synonym datetime = int

record TranscriptionOptions =
  language :: "string option"
  min_speakers :: "int option"
  max_speakers :: "int option"
  enable_diarization :: bool
  return_char_alignments :: bool

text \<open>The value of \<^verbatim>\<open>TranscriptionOptions()\<close>: every field at its declared default.\<close>

definition default_options :: TranscriptionOptions where
  "default_options =
     \<lparr>language = None, min_speakers = None, max_speakers = None,
      enable_diarization = True, return_char_alignments = False\<rparr>"

record WordSegment =
  word :: string
  word_start :: real
  word_end :: real
  score :: "real option"
  word_speaker :: "string option"

record TranscriptSegment =
  seg_start :: real
  seg_end :: real
  text_of :: string
  speaker :: "string option"
  words :: "WordSegment list option"

record TranscriptionResult =
  result_language :: string
  segments :: "TranscriptSegment list"
  word_segments :: "WordSegment list option"

text \<open>
  \<^verbatim>\<open>TaskProgress\<close>, the job record. Python floats are modelled by \<open>real\<close>: the queue
  only stores and compares \<open>progress\<close>, it never computes with it. The two attributes
  that \<^verbatim>\<open>create_task\<close> attaches to the record (\<^verbatim>\<open>_audio_path\<close>, \<^verbatim>\<open>_options\<close>) are the
  fields \<open>audio_path\<close> and \<open>options\<close>; \<open>None\<close> stands for an attribute that is not
  there, which is what \<^verbatim>\<open>getattr\<close> with a default observes.
\<close>

record TaskProgress =
  task_id :: task_id
  status :: TaskStatus
  progress :: real
  message :: string
  created_at :: datetime
  started_at :: "datetime option"
  completed_at :: "datetime option"
  error :: "string option"
  result :: "TranscriptionResult option"
  audio_path :: "string option"
  options :: "TranscriptionOptions option"

section \<open>The task queue (app/services/task_queue.py)\<close>

text \<open>
  The state of a \<^verbatim>\<open>TaskQueue\<close> object. \<^verbatim>\<open>_tasks\<close> is an \<^verbatim>\<open>OrderedDict\<close>: an association
  list in insertion order, where assigning to a key replaces its value in place or
  appends a new entry (\<open>AList.update\<close>) and \<^verbatim>\<open>del\<close> removes the key (\<open>AList.delete\<close>).
  \<^verbatim>\<open>_task_results\<close> is a plain dictionary. \<open>semaphore\<close> is the counter of the
  \<^verbatim>\<open>asyncio.Semaphore\<close>: the number of admission slots that are free.
\<close>

record TaskQueue =
  tasks :: "(task_id \<times> TaskProgress) list"
  task_results :: "task_id \<rightharpoonup> TranscriptionResult"
  semaphore :: nat
  running_tasks :: "task_id set"

text \<open>\<^verbatim>\<open>TaskQueue.__init__\<close>, with \<^verbatim>\<open>MAX_CONCURRENT_TASKS\<close> of the settings as \<open>C\<close>.\<close>

definition TaskQueue_init :: "nat \<Rightarrow> TaskQueue" where
  "TaskQueue_init C =
     \<lparr>tasks = [], task_results = Map.empty, semaphore = C, running_tasks = {}\<rparr>"

text \<open>
  \<^verbatim>\<open>create_task\<close>. The identifier drawn by \<^verbatim>\<open>uuid.uuid4()\<close> is the argument \<open>tid\<close>; it
  is also the value the method returns.
\<close>

definition create_task ::
  "TaskQueue \<Rightarrow> task_id \<Rightarrow> string \<Rightarrow> TranscriptionOptions \<Rightarrow> datetime \<Rightarrow> TaskQueue" where
  "create_task q tid path opts now =
     q\<lparr>tasks := AList.update tid
          \<lparr>task_id = tid, status = PENDING, progress = 0, message = ''Task queued'',
           created_at = now, started_at = None, completed_at = None, error = None,
           result = None, audio_path = Some path, options = Some opts\<rparr>
          (tasks q)\<rparr>"

text \<open>
  \<^verbatim>\<open>get_task\<close> returns the stored record object itself and, when a result is stored for
  the job, first writes that result into the record's \<open>result\<close> field. The write is an
  update of the store, so the model returns the new store with the record.
\<close>

definition get_task :: "TaskQueue \<Rightarrow> task_id \<Rightarrow> TaskQueue \<times> TaskProgress option" where
  "get_task q tid =
     (case map_of (tasks q) tid of
        None \<Rightarrow> (q, None)
      | Some task \<Rightarrow>
          (case task_results q tid of
             None \<Rightarrow> (q, Some task)
           | Some r \<Rightarrow>
               (q\<lparr>tasks := AList.update tid (task\<lparr>result := Some r\<rparr>) (tasks q)\<rparr>,
                Some (task\<lparr>result := Some r\<rparr>))))"

text \<open>The timestamp part of \<^verbatim>\<open>update_task\<close>, run when a status is given.\<close>

definition set_status :: "TaskProgress \<Rightarrow> TaskStatus \<Rightarrow> datetime \<Rightarrow> TaskProgress" where
  "set_status task s now =
     (let t = task\<lparr>status := s\<rparr> in
      if s = PROCESSING \<and> started_at t = None then t\<lparr>started_at := Some now\<rparr>
      else if s = COMPLETED \<or> s = FAILED then t\<lparr>completed_at := Some now\<rparr>
      else t)"

text \<open>
  What \<^verbatim>\<open>update_task\<close> does to the record it found: each argument that is not \<open>None\<close>
  is written, in the order status, progress, message, error.
\<close>

definition apply_update ::
  "TaskProgress \<Rightarrow> TaskStatus option \<Rightarrow> real option \<Rightarrow> string option \<Rightarrow> string option \<Rightarrow>
   datetime \<Rightarrow> TaskProgress" where
  "apply_update task status' progress' message' error' now =
     (let t1 = (case status' of None \<Rightarrow> task | Some s \<Rightarrow> set_status task s now);
          t2 = (case progress' of None \<Rightarrow> t1 | Some p \<Rightarrow> t1\<lparr>progress := p\<rparr>);
          t3 = (case message' of None \<Rightarrow> t2 | Some m \<Rightarrow> t2\<lparr>message := m\<rparr>);
          t4 = (case error' of None \<Rightarrow> t3 | Some e \<Rightarrow> t3\<lparr>error := Some e\<rparr>)
      in t4)"

text \<open>\<^verbatim>\<open>update_task\<close>: nothing happens for an unknown id.\<close>

definition update_task ::
  "TaskQueue \<Rightarrow> task_id \<Rightarrow> TaskStatus option \<Rightarrow> real option \<Rightarrow> string option \<Rightarrow>
   string option \<Rightarrow> datetime \<Rightarrow> TaskQueue" where
  "update_task q tid status' progress' message' error' now =
     (case map_of (tasks q) tid of
        None \<Rightarrow> q
      | Some task \<Rightarrow>
          q\<lparr>tasks := AList.update tid
               (apply_update task status' progress' message' error' now) (tasks q)\<rparr>)"

text \<open>\<^verbatim>\<open>set_result\<close> stores the result under the id, whatever \<^verbatim>\<open>_tasks\<close> holds.\<close>

definition set_result :: "TaskQueue \<Rightarrow> task_id \<Rightarrow> TranscriptionResult \<Rightarrow> TaskQueue" where
  "set_result q tid r = q\<lparr>task_results := (task_results q)(tid \<mapsto> r)\<rparr>"

text \<open>\<^verbatim>\<open>get_stats\<close>: four sums of ones over the records, and the number of records.\<close>

record stats =
  pending :: nat
  processing :: nat
  completed :: nat
  failed :: nat
  total :: nat

definition get_stats :: "TaskQueue \<Rightarrow> stats" where
  "get_stats q =
     \<lparr>pending = sum_list [1. t \<leftarrow> map snd (tasks q), status t = PENDING],
      processing = sum_list [1. t \<leftarrow> map snd (tasks q),
                      status t \<in> {PROCESSING, TRANSCRIBING, ALIGNING, DIARIZING}],
      completed = sum_list [1. t \<leftarrow> map snd (tasks q), status t = COMPLETED],
      failed = sum_list [1. t \<leftarrow> map snd (tasks q), status t = FAILED],
      total = length (tasks q)\<rparr>"

text \<open>
  \<^verbatim>\<open>cleanup_old_tasks\<close>. The age of a record is the difference of the clock reading and
  \<open>created_at\<close>, in hours; the arithmetic is exact in the model.
\<close>

definition age_hours :: "datetime \<Rightarrow> TaskProgress \<Rightarrow> real" where
  "age_hours cutoff task = (real_of_int (cutoff - created_at task) / 1000000) / 3600"

definition expired :: "int \<Rightarrow> datetime \<Rightarrow> TaskProgress \<Rightarrow> bool" where
  "expired max_age_hours cutoff task =
     (age_hours cutoff task > real_of_int max_age_hours \<and> status task \<in> {COMPLETED, FAILED})"

definition old_tasks :: "TaskQueue \<Rightarrow> int \<Rightarrow> datetime \<Rightarrow> task_id list" where
  "old_tasks q max_age_hours cutoff =
     [tid. (tid, task) \<leftarrow> tasks q, expired max_age_hours cutoff task]"

definition del_task :: "task_id \<Rightarrow> TaskQueue \<Rightarrow> TaskQueue" where
  "del_task tid q =
     (let q1 = q\<lparr>tasks := AList.delete tid (tasks q)\<rparr> in
      if tid \<in> dom (task_results q1)
      then q1\<lparr>task_results := (task_results q1)(tid := None)\<rparr> else q1)"

definition cleanup_old_tasks :: "TaskQueue \<Rightarrow> int \<Rightarrow> datetime \<Rightarrow> TaskQueue" where
  "cleanup_old_tasks q max_age_hours now = fold del_task (old_tasks q max_age_hours now) q"

section \<open>The delete route (app/routes/transcribe.py)\<close>

text \<open>
  \<^verbatim>\<open>delete_task\<close> of the HTTP layer. \<^verbatim>\<open>raise HTTPException(404, ...)\<close> is the left
  alternative of the result; the right one is the message of the success response.
  The best-effort removal of the uploaded audio file touches the file system only,
  never the queue, and is not part of the model.
\<close>

datatype http_error = HTTPException (status_code: nat) (detail: string)

definition quoted :: "string \<Rightarrow> string" where
  "quoted s = [CHR 0x27] @ s @ [CHR 0x27]"

definition delete_task :: "TaskQueue \<Rightarrow> task_id \<Rightarrow> TaskQueue \<times> (http_error + string)" where
  "delete_task q tid =
     (case get_task q tid of
        (q1, None) \<Rightarrow> (q1, Inl (HTTPException 404 (''Task '' @ quoted tid @ '' not found.'')))
      | (q1, Some task) \<Rightarrow>
          (let q2 = (if tid \<in> set (map fst (tasks q1))
                     then q1\<lparr>tasks := AList.delete tid (tasks q1)\<rparr> else q1);
               q3 = (if tid \<in> dom (task_results q2)
                     then q2\<lparr>task_results := (task_results q2)(tid := None)\<rparr> else q2)
           in (q3, Inr (''Task '' @ quoted tid @ '' deleted successfully''))))"

section \<open>Running a job: \<^verbatim>\<open>process_task\<close>\<close>

text \<open>
  The admission semaphore. \<^verbatim>\<open>async with self._semaphore\<close> acquires on entry and
  releases on every exit of the block. \<open>acquire\<close> takes a free slot when there is one;
  it is \<open>None\<close> when there is none, where the caller stays suspended.
\<close>

definition acquire :: "TaskQueue \<Rightarrow> TaskQueue option" where
  "acquire q = (if semaphore q > 0 then Some (q\<lparr>semaphore := semaphore q - 1\<rparr>) else None)"

definition release :: "TaskQueue \<Rightarrow> TaskQueue" where
  "release q = q\<lparr>semaphore := semaphore q + 1\<rparr>"

text \<open>
  Leaving the body of \<^verbatim>\<open>process_task\<close>: the \<^verbatim>\<open>finally\<close> clause discards the id from
  \<^verbatim>\<open>_running_tasks\<close>, then the \<^verbatim>\<open>async with\<close> block releases the slot.
\<close>

definition leave :: "TaskQueue \<Rightarrow> task_id \<Rightarrow> TaskQueue" where
  "leave q tid = release (q\<lparr>running_tasks := running_tasks q - {tid}\<rparr>)"

text \<open>
  The pipeline (\<^verbatim>\<open>service.transcribe\<close>) is a black box: it calls the progress callback
  some number of times and then returns a result or raises. \<open>RaisesException\<close> carries
  \<^verbatim>\<open>str(e)\<close> of an exception that is an instance of \<^verbatim>\<open>Exception\<close>, a fault of the
  pipeline; \<open>RaisesBaseException\<close> is one that is not (cancellation, interpreter exit),
  which \<^verbatim>\<open>except Exception\<close> does not catch.
\<close>

datatype pipeline_outcome =
  Returns TranscriptionResult | RaisesException string | RaisesBaseException string

type_synonym progress_event = "string \<times> real \<times> datetime"

text \<open>Python's \<^verbatim>\<open>not audio_path\<close>: the attribute is missing, \<^verbatim>\<open>None\<close> or the empty string.\<close>

definition falsy :: "string option \<Rightarrow> bool" where
  "falsy p = (case p of None \<Rightarrow> True | Some v \<Rightarrow> v = [])"

text \<open>
  The first part of the body, from the acquired slot to the \<^verbatim>\<open>await\<close> of the pipeline.
  It either returns early (unknown id, or no audio path) and leaves the block, or it
  reaches the pipeline call with the audio path and the options.
\<close>

datatype entered = Returned | AtPipeline string TranscriptionOptions

definition process_task_enter :: "TaskQueue \<Rightarrow> task_id \<Rightarrow> datetime \<Rightarrow> TaskQueue \<times> entered" where
  "process_task_enter q tid now =
     (let q1 = q\<lparr>running_tasks := insert tid (running_tasks q)\<rparr> in
      case map_of (tasks q1) tid of
        None \<Rightarrow> (leave q1 tid, Returned)
      | Some task \<Rightarrow>
          (let path = audio_path task;
               opts = (case options task of None \<Rightarrow> default_options | Some v \<Rightarrow> v)
           in if falsy path
              then (leave (update_task q1 tid (Some FAILED) None None
                             (Some ''Audio path not found'') now) tid, Returned)
              else (update_task q1 tid (Some PROCESSING) (Some 0)
                      (Some ''Starting transcription'') None now,
                    AtPipeline (the path) opts)))"

definition status_map :: "string \<rightharpoonup> TaskStatus" where
  "status_map = map_of
     [(''loading_audio'', PROCESSING), (''transcribing'', TRANSCRIBING),
      (''aligning'', ALIGNING), (''diarizing'', DIARIZING),
      (''processing'', PROCESSING), (''completed'', PROCESSING)]"

definition progress_callback ::
  "TaskQueue \<Rightarrow> task_id \<Rightarrow> string \<Rightarrow> real \<Rightarrow> datetime \<Rightarrow> TaskQueue" where
  "progress_callback q tid stage percent now =
     update_task q tid
       (Some (case status_map stage of None \<Rightarrow> PROCESSING | Some s \<Rightarrow> s))
       (Some percent) (Some (''Status: '' @ stage)) None now"

definition run_callbacks :: "TaskQueue \<Rightarrow> task_id \<Rightarrow> progress_event list \<Rightarrow> TaskQueue" where
  "run_callbacks q tid evs =
     fold (\<lambda>(stage, percent, now) q'. progress_callback q' tid stage percent now) evs q"

text \<open>
  The second part, from the end of the pipeline call to the end of the block. The
  second component is the exception that propagates out of \<^verbatim>\<open>process_task\<close>, if any.
\<close>

definition process_task_resume ::
  "TaskQueue \<Rightarrow> task_id \<Rightarrow> pipeline_outcome \<Rightarrow> datetime \<Rightarrow> TaskQueue \<times> string option" where
  "process_task_resume q tid outcome now =
     (case outcome of
        Returns r \<Rightarrow>
          (leave (update_task (set_result q tid r) tid (Some COMPLETED) (Some 100)
                    (Some ''Transcription completed successfully'') None now) tid, None)
      | RaisesException e \<Rightarrow>
          (leave (update_task q tid (Some FAILED) None
                    (Some ''Transcription failed'') (Some e) now) tid, None)
      | RaisesBaseException e \<Rightarrow> (leave q tid, Some e))"

text \<open>
  One whole execution with nothing else running in between. \<open>t0\<close> is the clock at the
  start, \<open>evs\<close> are the callbacks the pipeline makes, \<open>outcome\<close> is how it ends and \<open>t1\<close>
  is the clock then. The value is \<open>None\<close> when no slot is free: the execution does not
  get past \<^verbatim>\<open>acquire\<close>.
\<close>

definition process_task ::
  "TaskQueue \<Rightarrow> task_id \<Rightarrow> datetime \<Rightarrow> progress_event list \<Rightarrow> pipeline_outcome \<Rightarrow> datetime
   \<Rightarrow> (TaskQueue \<times> string option) option" where
  "process_task q tid t0 evs outcome t1 =
     (case acquire q of
        None \<Rightarrow> None
      | Some q1 \<Rightarrow>
          (case process_task_enter q1 tid t0 of
             (q2, Returned) \<Rightarrow> Some (q2, None)
           | (q2, AtPipeline path opts) \<Rightarrow>
               Some (process_task_resume (run_callbacks q2 tid evs) tid outcome t1)))"

text \<open>A record that no execution has brought to an end: no error, no result, not terminal.\<close>

definition unfinished :: "TaskProgress \<Rightarrow> bool" where
  "unfinished t =
     (error t = None \<and> result t = None \<and> status t \<noteq> COMPLETED \<and> status t \<noteq> FAILED)"

section \<open>The scheduler: executions interleaved on the event loop\<close>

text \<open>
  Several executions of \<^verbatim>\<open>process_task\<close> are in progress at once; each is suspended
  either in \<^verbatim>\<open>acquire\<close> (\<open>parked\<close>) or in the pipeline call, holding a slot (\<open>inflight\<close>).
  An event is one atomic piece of work on the queue: the upload route (create the job
  and schedule its execution), the admission of a parked execution, a progress
  callback or the end of the pipeline call of an execution in flight, and the calls of
  the other routes and of the sweeper. \<open>step\<close> is \<open>None\<close> when the event cannot happen
  in the state. Which parked execution is admitted next is left open.
\<close>

record sched =
  queue :: TaskQueue
  parked :: "task_id list"
  inflight :: "task_id list"

datatype event =
    Upload task_id string TranscriptionOptions datetime
  | Admit task_id datetime
  | Progress task_id string real datetime
  | Finish task_id pipeline_outcome datetime
  | Poll task_id
  | Delete task_id
  | Sweep int datetime

definition sched_init :: "nat \<Rightarrow> sched" where
  "sched_init C = \<lparr>queue = TaskQueue_init C, parked = [], inflight = []\<rparr>"

fun step :: "sched \<Rightarrow> event \<Rightarrow> sched option" where
  "step s (Upload tid path opts now) =
     Some (s\<lparr>queue := create_task (queue s) tid path opts now, parked := parked s @ [tid]\<rparr>)"
| "step s (Admit tid now) =
     (if tid \<in> set (parked s) then
        (case acquire (queue s) of
           None \<Rightarrow> None
         | Some q1 \<Rightarrow>
             (case process_task_enter q1 tid now of
                (q2, Returned) \<Rightarrow> Some (s\<lparr>queue := q2, parked := remove1 tid (parked s)\<rparr>)
              | (q2, AtPipeline path opts) \<Rightarrow>
                  Some (s\<lparr>queue := q2, parked := remove1 tid (parked s),
                          inflight := tid # inflight s\<rparr>)))
      else None)"
| "step s (Progress tid stage percent now) =
     (if tid \<in> set (inflight s)
      then Some (s\<lparr>queue := progress_callback (queue s) tid stage percent now\<rparr>)
      else None)"
| "step s (Finish tid outcome now) =
     (if tid \<in> set (inflight s)
      then Some (s\<lparr>queue := fst (process_task_resume (queue s) tid outcome now),
                   inflight := remove1 tid (inflight s)\<rparr>)
      else None)"
| "step s (Poll tid) = Some (s\<lparr>queue := fst (get_task (queue s) tid)\<rparr>)"
| "step s (Delete tid) = Some (s\<lparr>queue := fst (delete_task (queue s) tid)\<rparr>)"
| "step s (Sweep max_age_hours now) =
     Some (s\<lparr>queue := cleanup_old_tasks (queue s) max_age_hours now\<rparr>)"

fun run :: "sched \<Rightarrow> event list \<Rightarrow> sched option" where
  "run s [] = Some s"
| "run s (e # es) = (case step s e of None \<Rightarrow> None | Some s' \<Rightarrow> run s' es)"

section \<open>Invariants of the scheduler\<close>

text \<open>
  Slots: the free slots and the executions in flight add up to
  the capacity, and \<^verbatim>\<open>_running_tasks\<close> holds ids of executions in flight only.
\<close>

definition slots_inv :: "nat \<Rightarrow> sched \<Rightarrow> bool" where
  "slots_inv C s =
     (semaphore (queue s) + length (inflight s) = C \<and>
      running_tasks (queue s) \<subseteq> set (inflight s))"

text \<open>The ids that the uploads of an event list create, in order.\<close>

fun upload_id :: "event \<Rightarrow> task_id list" where
  "upload_id (Upload tid path opts now) = [tid]"
| "upload_id e = []"

definition uploads :: "event list \<Rightarrow> task_id list" where
  "uploads es = concat (map upload_id es)"

text \<open>
  A record agrees with the stored result \<open>r\<close> of its id: a completed record has a stored
  result (and its \<open>result\<close> field, once joined, is that result), any other record has none,
  and the record has an error exactly when it is failed.
\<close>

definition consistent :: "TaskProgress \<Rightarrow> TranscriptionResult option \<Rightarrow> bool" where
  "consistent t r =
     ((status t = COMPLETED \<longrightarrow> r \<noteq> None \<and> (result t = None \<or> result t = r))
      \<and> (status t \<noteq> COMPLETED \<longrightarrow> r = None \<and> result t = None)
      \<and> (error t \<noteq> None \<longleftrightarrow> status t = FAILED))"

text \<open>
  At most one execution per id is parked or in flight, every record agrees with the
  stored result of its id, and the record of an execution that has not ended is not
  terminal.
\<close>

definition jobs_ok :: "TaskQueue \<Rightarrow> task_id list \<Rightarrow> task_id list \<Rightarrow> bool" where
  "jobs_ok q ps fs =
     (distinct (ps @ fs)
      \<and> (\<forall>k t. map_of (tasks q) k = Some t \<longrightarrow>
            consistent t (task_results q k)
            \<and> (k \<in> set ps \<union> set fs \<longrightarrow> status t \<noteq> COMPLETED \<and> status t \<noteq> FAILED)))"

definition jobs_inv :: "sched \<Rightarrow> bool" where
  "jobs_inv s = jobs_ok (queue s) (parked s) (inflight s)"

definition ids :: "sched \<Rightarrow> task_id set" where
  "ids s = dom (map_of (tasks (queue s))) \<union> dom (task_results (queue s))
           \<union> set (parked s) \<union> set (inflight s)"

text \<open>
  An event that ends a pipeline call with an exception outside \<^verbatim>\<open>Exception\<close>: the
  execution leaves the body and the record keeps its running status.
\<close>

fun interrupted :: "event \<Rightarrow> bool" where
  "interrupted (Finish tid (RaisesBaseException e) now) = True"
| "interrupted e = False"

definition running_status :: "TaskStatus \<Rightarrow> bool" where
  "running_status st = (st \<in> {PROCESSING, TRANSCRIBING, ALIGNING, DIARIZING})"

text \<open>The ids of the store are distinct, and a record with a running status is in flight.\<close>

definition running_inv :: "sched \<Rightarrow> bool" where
  "running_inv s =
     (distinct (map fst (tasks (queue s)))
      \<and> (\<forall>k t. map_of (tasks (queue s)) k = Some t \<longrightarrow> running_status (status t) \<longrightarrow>
            k \<in> set (inflight s)))"

section \<open>Sample runs\<close>

text \<open>
  Three uploads on a queue of capacity two: two executions are admitted, and the third
  stays parked while both slots are taken.
\<close>

definition burst :: "event list" where
  "burst =
     [Upload ''a'' ''a.wav'' default_options 1, Upload ''b'' ''b.wav'' default_options 2,
      Upload ''c'' ''c.wav'' default_options 3, Admit ''a'' 4, Admit ''b'' 5]"

text \<open>The same three jobs run to their end, with the pipeline failing on every call.\<close>

definition all_fail :: "event list" where
  "all_fail =
     burst @
     [Finish ''a'' (RaisesException ''boom'') 6, Admit ''c'' 7,
      Finish ''b'' (RaisesException ''boom'') 8, Finish ''c'' (RaisesBaseException ''stop'') 9]"

text \<open>A job is deleted while its execution is in the pipeline call.\<close>

definition sample_result :: TranscriptionResult where
  "sample_result = \<lparr>result_language = ''en'', segments = [], word_segments = None\<rparr>"


text \<open>A store with one job, as \<^verbatim>\<open>create_task\<close> leaves it at clock reading 1000.\<close>

definition one_job :: TaskQueue where
  "one_job = create_task (TaskQueue_init 1) ''a'' ''a.wav'' default_options 1000"


text \<open>Two jobs run side by side: \<open>b\<close> fails, \<open>a\<close> is polled during its run and completes.\<close>

definition mixed_run :: "event list" where
  "mixed_run =
     [Upload ''a'' ''a.wav'' default_options 1, Upload ''b'' ''b.wav'' default_options 2,
      Admit ''b'' 3, Admit ''a'' 4, Progress ''a'' ''aligning'' 45 5, Poll ''a'',
      Finish ''b'' (RaisesException ''boom'') 6, Finish ''a'' (Returns sample_result) 7]"

section \<open>Statistics\<close>

lemma sum_ones_filter: "sum_list [1. t \<leftarrow> xs, P t] = length (filter P xs)"
  by (induction xs) auto

lemma status_partition:
  "length (filter (\<lambda>t. status t = PENDING) xs)
   + length (filter (\<lambda>t. status t \<in> {PROCESSING, TRANSCRIBING, ALIGNING, DIARIZING}) xs)
   + length (filter (\<lambda>t. status t = COMPLETED) xs)
   + length (filter (\<lambda>t. status t = FAILED) xs) = length xs"
proof (induction xs)
  case Nil
  show ?case by simp
next
  case (Cons t ts)
  then show ?case by (cases "status t") simp_all
qed

text \<open>
  C10. The four counts of \<^verbatim>\<open>get_stats\<close> add up to \<open>total\<close>, the number of records:
  \<open>pending\<close> counts the records with status \<open>PENDING\<close>, \<open>processing\<close> those with one
  of \<open>PROCESSING\<close>, \<open>TRANSCRIBING\<close>, \<open>ALIGNING\<close>, \<open>DIARIZING\<close>, \<open>completed\<close> those with
  \<open>COMPLETED\<close> and \<open>failed\<close> those with \<open>FAILED\<close>, and every status value falls in
  exactly one of the four classes.
\<close>

theorem get_stats_total:
  "pending (get_stats q) + processing (get_stats q) + completed (get_stats q)
     + failed (get_stats q) = total (get_stats q)
   \<and> total (get_stats q) = length (tasks q)
   \<and> pending (get_stats q) = length (filter (\<lambda>t. status t = PENDING) (map snd (tasks q)))
   \<and> processing (get_stats q) =
       length (filter (\<lambda>t. status t \<in> {PROCESSING, TRANSCRIBING, ALIGNING, DIARIZING})
         (map snd (tasks q)))
   \<and> completed (get_stats q) = length (filter (\<lambda>t. status t = COMPLETED) (map snd (tasks q)))
   \<and> failed (get_stats q) = length (filter (\<lambda>t. status t = FAILED) (map snd (tasks q)))
   \<and> (of_bool (s = PENDING) + of_bool (s \<in> {PROCESSING, TRANSCRIBING, ALIGNING, DIARIZING})
        + of_bool (s = COMPLETED) + of_bool (s = FAILED) = (1::nat))"
proof -
  let ?xs = "map snd (tasks q)"
  have b: "of_bool (s = PENDING) + of_bool (s \<in> {PROCESSING, TRANSCRIBING, ALIGNING, DIARIZING})
        + of_bool (s = COMPLETED) + of_bool (s = FAILED) = (1::nat)"
    by (cases s) simp_all
  have p: "pending (get_stats q) = length (filter (\<lambda>t. status t = PENDING) ?xs)"
    unfolding get_stats_def sum_ones_filter by simp
  have r: "processing (get_stats q) =
       length (filter (\<lambda>t. status t \<in> {PROCESSING, TRANSCRIBING, ALIGNING, DIARIZING}) ?xs)"
    unfolding get_stats_def sum_ones_filter by simp
  have c: "completed (get_stats q) = length (filter (\<lambda>t. status t = COMPLETED) ?xs)"
    unfolding get_stats_def sum_ones_filter by simp
  have f: "failed (get_stats q) = length (filter (\<lambda>t. status t = FAILED) ?xs)"
    unfolding get_stats_def sum_ones_filter by simp
  have t: "total (get_stats q) = length (tasks q)"
    by (simp add: get_stats_def)
  have "pending (get_stats q) + processing (get_stats q) + completed (get_stats q)
     + failed (get_stats q) = length ?xs"
    unfolding p r c f by (rule status_partition)
  then have "pending (get_stats q) + processing (get_stats q) + completed (get_stats q)
     + failed (get_stats q) = total (get_stats q)"
    using t by simp
  with b p r c f t show ?thesis by blast
qed

section \<open>Frame properties: what each operation leaves alone\<close>

lemma update_task_frame [simp]:
  "semaphore (update_task q tid st pr msg err now) = semaphore q"
  "running_tasks (update_task q tid st pr msg err now) = running_tasks q"
  "task_results (update_task q tid st pr msg err now) = task_results q"
  by (simp_all add: update_task_def split: option.splits)

lemma create_task_frame [simp]:
  "semaphore (create_task q tid path opts now) = semaphore q"
  "running_tasks (create_task q tid path opts now) = running_tasks q"
  "task_results (create_task q tid path opts now) = task_results q"
  by (simp_all add: create_task_def)

lemma get_task_frame [simp]:
  "semaphore (fst (get_task q tid)) = semaphore q"
  "running_tasks (fst (get_task q tid)) = running_tasks q"
  "task_results (fst (get_task q tid)) = task_results q"
  by (simp_all add: get_task_def split: option.splits)

lemma delete_task_frame [simp]:
  "semaphore (fst (delete_task q tid)) = semaphore q"
  "running_tasks (fst (delete_task q tid)) = running_tasks q"
  by (simp_all add: delete_task_def get_task_def Let_def split: option.splits prod.splits)

lemma del_task_frame [simp]:
  "semaphore (del_task tid q) = semaphore q"
  "running_tasks (del_task tid q) = running_tasks q"
  by (simp_all add: del_task_def Let_def)

lemma fold_del_task_frame [simp]:
  "semaphore (fold del_task ks q) = semaphore q"
  "running_tasks (fold del_task ks q) = running_tasks q"
  by (induction ks arbitrary: q) simp_all

lemma cleanup_frame [simp]:
  "semaphore (cleanup_old_tasks q h now) = semaphore q"
  "running_tasks (cleanup_old_tasks q h now) = running_tasks q"
  by (simp_all add: cleanup_old_tasks_def)

lemma progress_callback_frame [simp]:
  "semaphore (progress_callback q tid stage pct now) = semaphore q"
  "running_tasks (progress_callback q tid stage pct now) = running_tasks q"
  "task_results (progress_callback q tid stage pct now) = task_results q"
  by (simp_all add: progress_callback_def)

lemma leave_frame [simp]:
  "semaphore (leave q tid) = Suc (semaphore q)"
  "running_tasks (leave q tid) = running_tasks q - {tid}"
  "task_results (leave q tid) = task_results q"
  "tasks (leave q tid) = tasks q"
  by (simp_all add: leave_def release_def)

lemma resume_frame [simp]:
  "semaphore (fst (process_task_resume q tid out now)) = Suc (semaphore q)"
  "running_tasks (fst (process_task_resume q tid out now)) = running_tasks q - {tid}"
  by (simp_all add: process_task_resume_def set_result_def split: pipeline_outcome.splits)

lemma enter_Returned:
  "process_task_enter q tid now = (q', Returned) \<Longrightarrow>
   semaphore q' = Suc (semaphore q) \<and> running_tasks q' = running_tasks q - {tid}"
  by (auto simp: process_task_enter_def Let_def split: option.splits if_splits)

lemma enter_AtPipeline:
  "process_task_enter q tid now = (q', AtPipeline p opts) \<Longrightarrow>
   semaphore q' = semaphore q \<and> running_tasks q' = insert tid (running_tasks q)"
  by (auto simp: process_task_enter_def Let_def split: option.splits if_splits)

lemma acquire_Some:
  "acquire q = Some q1 \<Longrightarrow>
   Suc (semaphore q1) = semaphore q \<and> running_tasks q1 = running_tasks q \<and> tasks q1 = tasks q
   \<and> task_results q1 = task_results q"
  by (auto simp: acquire_def split: if_splits)

section \<open>What the sweeper removes\<close>

lemma del_task_tasks [simp]:
  "tasks (del_task k q) = AList.delete k (tasks q)"
  "task_results (del_task k q) = (task_results q)(k := None)"
  by (auto simp: del_task_def Let_def domIff)

lemma fold_del_task_tasks:
  "tasks (fold del_task ks q) = filter (\<lambda>p. fst p \<notin> set ks) (tasks q)"
proof (induction ks arbitrary: q)
  case Nil
  show ?case by simp
next
  case (Cons k ks)
  have "filter (\<lambda>p. fst p \<notin> set ks) (AList.delete k (tasks q))
        = filter (\<lambda>p. fst p \<notin> set (k # ks)) (tasks q)"
    by (induction "tasks q") (auto simp: AList.delete_eq intro: filter_cong)
  with Cons show ?case by simp
qed

lemma fold_del_task_results:
  "task_results (fold del_task ks q) k = (if k \<in> set ks then None else task_results q k)"
  by (induction ks arbitrary: q) auto

lemma set_old_tasks:
  "set (old_tasks q h now) = {k. \<exists>t. (k, t) \<in> set (tasks q) \<and> expired h now t}"
  by (auto simp: old_tasks_def)



section \<open>Records and lookups\<close>

lemma lookup_update_task:
  "map_of (tasks (update_task q tid a b c d now)) k =
     (if k = tid then map_option (\<lambda>t. apply_update t a b c d now) (map_of (tasks q) tid)
      else map_of (tasks q) k)"
  by (simp add: update_task_def update_conv' split: option.splits)

lemma set_status_fields [simp]:
  "status (set_status t s now) = s"
  "error (set_status t s now) = error t"
  "result (set_status t s now) = result t"
  "progress (set_status t s now) = progress t"
  "message (set_status t s now) = message t"
  "created_at (set_status t s now) = created_at t"
  "audio_path (set_status t s now) = audio_path t"
  "options (set_status t s now) = options t"
  "task_id (set_status t s now) = task_id t"
  by (simp_all add: set_status_def Let_def)

lemma apply_update_fields:
  "status (apply_update t st pr msg err now) = (case st of None \<Rightarrow> status t | Some s \<Rightarrow> s)"
  "error (apply_update t st pr msg err now) = (case err of None \<Rightarrow> error t | Some e \<Rightarrow> Some e)"
  "result (apply_update t st pr msg err now) = result t"
  "progress (apply_update t st pr msg err now) = (case pr of None \<Rightarrow> progress t | Some p \<Rightarrow> p)"
  "message (apply_update t st pr msg err now) = (case msg of None \<Rightarrow> message t | Some m \<Rightarrow> m)"
  "created_at (apply_update t st pr msg err now) = created_at t"
  "audio_path (apply_update t st pr msg err now) = audio_path t"
  "options (apply_update t st pr msg err now) = options t"
  "task_id (apply_update t st pr msg err now) = task_id t"
  by (simp_all add: apply_update_def split: option.splits)

lemma update_task_unknown: "map_of (tasks q) tid = None \<Longrightarrow> update_task q tid a b c d now = q"
  by (simp add: update_task_def)

lemma status_map_running:
  "(case status_map stage of None \<Rightarrow> PROCESSING | Some s \<Rightarrow> s)
     \<in> {PROCESSING, TRANSCRIBING, ALIGNING, DIARIZING}"
  by (simp add: status_map_def)

lemma get_task_no_result:
  "map_of (tasks q) tid = Some t \<Longrightarrow> task_results q tid = None \<Longrightarrow> snd (get_task q tid) = Some t"
  by (simp add: get_task_def)

lemma get_task_with_result:
  "map_of (tasks q) tid = Some t \<Longrightarrow> task_results q tid = Some r \<Longrightarrow>
   snd (get_task q tid) = Some (t\<lparr>result := Some r\<rparr>)"
  by (simp add: get_task_def)

lemma lookup_create_task:
  "map_of (tasks (create_task q tid path opts now)) tid =
     Some \<lparr>task_id = tid, status = PENDING, progress = 0, message = ''Task queued'',
           created_at = now, started_at = None, completed_at = None, error = None,
           result = None, audio_path = Some path, options = Some opts\<rparr>"
  by (simp add: create_task_def update_conv')

lemma lookup_create_task':
  "map_of (tasks (create_task q tid path opts now)) k =
     (if k = tid then
        Some \<lparr>task_id = tid, status = PENDING, progress = 0, message = ''Task queued'',
           created_at = now, started_at = None, completed_at = None, error = None,
           result = None, audio_path = Some path, options = Some opts\<rparr>
      else map_of (tasks q) k)"
  by (simp add: create_task_def update_conv')

lemma lookup_get_task:
  "map_of (tasks (fst (get_task q tid))) k =
     (if k = tid then
        (case task_results q tid of
           None \<Rightarrow> map_of (tasks q) tid
         | Some r \<Rightarrow> map_option (\<lambda>t. t\<lparr>result := Some r\<rparr>) (map_of (tasks q) tid))
      else map_of (tasks q) k)"
  by (simp add: get_task_def update_conv' split: option.splits)

lemma key_in: "(k \<in> fst ` set al) = (map_of al k \<noteq> None)"
  by (simp add: map_of_eq_None_iff)

lemma lookup_delete_task:
  "map_of (tasks (fst (delete_task q tid))) k =
     (if k = tid then None else map_of (tasks q) k)"
  "task_results (fst (delete_task q tid)) k =
     (if k = tid \<and> map_of (tasks q) tid \<noteq> None then None else task_results q k)"
  by (simp_all add: delete_task_def get_task_def Let_def update_conv' delete_conv' domIff
      key_in split: option.splits)

lemma map_of_filter_keys:
  "map_of (filter (\<lambda>p. fst p \<notin> A) al) k = (if k \<in> A then None else map_of al k)"
  by (induction al) auto

lemma lookup_cleanup:
  "map_of (tasks (cleanup_old_tasks q h now)) k =
     (if k \<in> set (old_tasks q h now) then None else map_of (tasks q) k)"
  "task_results (cleanup_old_tasks q h now) k =
     (if k \<in> set (old_tasks q h now) then None else task_results q k)"
  by (simp_all add: cleanup_old_tasks_def fold_del_task_tasks fold_del_task_results
      map_of_filter_keys)

lemma old_tasks_keys: "k \<in> set (old_tasks q h now) \<Longrightarrow> map_of (tasks q) k \<noteq> None"
  unfolding key_in [symmetric] by (force simp: set_old_tasks)

lemma lookup_enter:
  "map_of (tasks (fst (process_task_enter q tid now))) k =
     (if k = tid then
        map_option (\<lambda>t. if falsy (audio_path t)
                        then apply_update t (Some FAILED) None None
                               (Some ''Audio path not found'') now
                        else apply_update t (Some PROCESSING) (Some 0)
                               (Some ''Starting transcription'') None now)
          (map_of (tasks q) tid)
      else map_of (tasks q) k)"
  "task_results (fst (process_task_enter q tid now)) = task_results q"
  by (simp_all add: process_task_enter_def Let_def lookup_update_task split: option.splits)

lemma enter_kind:
  "snd (process_task_enter q tid now) = Returned \<longleftrightarrow>
     (case map_of (tasks q) tid of None \<Rightarrow> True | Some t \<Rightarrow> falsy (audio_path t))"
  by (simp add: process_task_enter_def Let_def split: option.splits)

lemma lookup_resume:
  "map_of (tasks (fst (process_task_resume q tid out now))) k =
     (if k = tid then
        map_option (\<lambda>t. case out of
            Returns r \<Rightarrow> apply_update t (Some COMPLETED) (Some 100)
                           (Some ''Transcription completed successfully'') None now
          | RaisesException e \<Rightarrow> apply_update t (Some FAILED) None
                           (Some ''Transcription failed'') (Some e) now
          | RaisesBaseException e \<Rightarrow> t)
          (map_of (tasks q) tid)
      else map_of (tasks q) k)"
  "task_results (fst (process_task_resume q tid out now)) =
     (case out of Returns r \<Rightarrow> (task_results q)(tid \<mapsto> r) | _ \<Rightarrow> task_results q)"
  by (simp_all add: process_task_resume_def lookup_update_task set_result_def
      option.map_ident split: pipeline_outcome.splits)

lemma lookup_progress:
  "map_of (tasks (progress_callback q tid stage pct now)) k =
     (if k = tid then
        map_option (\<lambda>t. apply_update t
            (Some (case status_map stage of None \<Rightarrow> PROCESSING | Some s \<Rightarrow> s))
            (Some pct) (Some (''Status: '' @ stage)) None now)
          (map_of (tasks q) tid)
      else map_of (tasks q) k)"
  by (simp add: progress_callback_def lookup_update_task)

section \<open>Admission control\<close>

lemma diff_subset_remove1: "A \<subseteq> set xs \<Longrightarrow> A - {t} \<subseteq> set (remove1 t xs)"
proof
  fix x assume "A \<subseteq> set xs" and "x \<in> A - {t}"
  then have "x \<noteq> t" and "x \<in> set xs" by auto
  then show "x \<in> set (remove1 t xs)" by simp
qed

lemma step_slots_inv:
  assumes "step s e = Some s'" and "slots_inv C s"
  shows "slots_inv C s'"
proof (cases e)
  case (Admit tid now)
  with assms(1) obtain q1 q2 r where
    p: "tid \<in> set (parked s)" and a: "acquire (queue s) = Some q1"
    and en: "process_task_enter q1 tid now = (q2, r)"
    by (auto split: if_splits option.splits prod.splits)
  show ?thesis
  proof (cases r)
    case Returned
    with Admit assms p a en have s': "s' = s\<lparr>queue := q2, parked := remove1 tid (parked s)\<rparr>"
      by simp
    from enter_Returned [OF en [unfolded Returned]] acquire_Some [OF a] assms(2)
    show ?thesis unfolding s' slots_inv_def by auto
  next
    case (AtPipeline path opts)
    with Admit assms p a en have s': "s' = s\<lparr>queue := q2, parked := remove1 tid (parked s),
        inflight := tid # inflight s\<rparr>"
      by simp
    from enter_AtPipeline [OF en [unfolded AtPipeline]] acquire_Some [OF a] assms(2)
    show ?thesis unfolding s' slots_inv_def by auto
  qed
next
  case (Finish tid out now)
  with assms(1) have m: "tid \<in> set (inflight s)"
    and s': "s' = s\<lparr>queue := fst (process_task_resume (queue s) tid out now),
                   inflight := remove1 tid (inflight s)\<rparr>"
    by (auto split: if_splits)
  from m have "length (inflight s) > 0" by (cases "inflight s") auto
  with m have "Suc (length (remove1 tid (inflight s))) = length (inflight s)"
    by (simp add: length_remove1)
  with assms(2) show ?thesis
    unfolding s' slots_inv_def by (auto simp: diff_subset_remove1)
qed (use assms in \<open>auto simp: slots_inv_def split: if_splits\<close>)

lemma run_slots_inv:
  "run s es = Some s' \<Longrightarrow> slots_inv C s \<Longrightarrow> slots_inv C s'"
proof (induction es arbitrary: s)
  case Nil
  then show ?case by simp
next
  case (Cons e es)
  then show ?case by (auto split: option.splits dest: step_slots_inv)
qed

lemma init_slots_inv: "slots_inv C (sched_init C)"
  by (simp add: slots_inv_def sched_init_def TaskQueue_init_def)

lemma distinct_ops:
  assumes "distinct (map fst (tasks q))"
  shows "distinct (map fst (tasks (create_task q tid path opts now)))"
    and "distinct (map fst (tasks (update_task q tid a b c d now)))"
    and "distinct (map fst (tasks (fst (get_task q tid))))"
    and "distinct (map fst (tasks (fst (delete_task q tid))))"
    and "distinct (map fst (tasks (cleanup_old_tasks q h now)))"
    and "distinct (map fst (tasks (set_result q tid r)))"
    and "distinct (map fst (tasks (leave q tid)))"
  using assms
  by (simp_all add: create_task_def update_task_def get_task_def delete_task_def Let_def
      cleanup_old_tasks_def fold_del_task_tasks distinct_update distinct_delete
      distinct_map_filter set_result_def split: option.splits)

lemma distinct_exec:
  assumes "distinct (map fst (tasks q))"
  shows "distinct (map fst (tasks (fst (process_task_enter q tid now))))"
    and "distinct (map fst (tasks (progress_callback q tid stage pct now)))"
    and "distinct (map fst (tasks (fst (process_task_resume q tid out now))))"
proof -
  have "distinct (map fst (tasks (q\<lparr>running_tasks := insert tid (running_tasks q)\<rparr>)))"
    using assms by simp
  from distinct_ops(2) [OF this]
  show "distinct (map fst (tasks (fst (process_task_enter q tid now))))"
    by (simp add: process_task_enter_def Let_def assms split: option.splits)
  show "distinct (map fst (tasks (progress_callback q tid stage pct now)))"
    using assms by (simp add: progress_callback_def distinct_ops)
  show "distinct (map fst (tasks (fst (process_task_resume q tid out now))))"
    using assms by (cases out) (simp_all add: process_task_resume_def distinct_ops)
qed

lemma step_running_inv:
  assumes st: "step s e = Some s'" and inv: "running_inv s" and ni: "\<not> interrupted e"
  shows "running_inv s'"
proof -
  from inv have d: "distinct (map fst (tasks (queue s)))"
    and r: "\<And>k t. map_of (tasks (queue s)) k = Some t \<Longrightarrow> running_status (status t) \<Longrightarrow>
              k \<in> set (inflight s)"
    by (auto simp: running_inv_def)
  show ?thesis
  proof (cases e)
    case (Upload tid path opts now)
    with st have s': "s' = s\<lparr>queue := create_task (queue s) tid path opts now,
        parked := parked s @ [tid]\<rparr>"
      by simp
    show ?thesis unfolding s' running_inv_def
      using d r by (auto simp: distinct_ops lookup_create_task' running_status_def split: if_splits)
  next
    case (Admit tid now)
    with st obtain q1 where m: "tid \<in> set (parked s)" and a: "acquire (queue s) = Some q1"
      by (auto split: if_splits option.splits)
    from acquire_Some [OF a] have eq: "tasks q1 = tasks (queue s)" by simp
    let ?fs = "case snd (process_task_enter q1 tid now) of
                Returned \<Rightarrow> inflight s | AtPipeline path opts \<Rightarrow> tid # inflight s"
    from Admit st m a have s': "s' = s\<lparr>queue := fst (process_task_enter q1 tid now),
        parked := remove1 tid (parked s), inflight := ?fs\<rparr>"
      by (cases "process_task_enter q1 tid now") (auto split: entered.splits)
    have "k \<in> set ?fs"
      if l: "map_of (tasks (fst (process_task_enter q1 tid now))) k = Some t'"
        and rs: "running_status (status t')" for k t'
    proof (cases "k = tid")
      case True
      with l obtain t where t: "map_of (tasks q1) tid = Some t"
        and t': "t' = (if falsy (audio_path t)
                        then apply_update t (Some FAILED) None None
                               (Some ''Audio path not found'') now
                        else apply_update t (Some PROCESSING) (Some 0)
                               (Some ''Starting transcription'') None now)"
        by (auto simp: lookup_enter)
      from rs t' have "\<not> falsy (audio_path t)"
        by (auto simp: apply_update_fields running_status_def split: if_splits)
      with t have "snd (process_task_enter q1 tid now) \<noteq> Returned" by (simp add: enter_kind)
      with True show ?thesis by (auto split: entered.splits)
    next
      case False
      with l have "map_of (tasks (queue s)) k = Some t'" by (simp add: lookup_enter eq)
      from r [OF this rs] show ?thesis by (auto split: entered.splits)
    qed
    with d show ?thesis unfolding s' running_inv_def by (simp add: distinct_exec eq)
  next
    case (Progress tid stage pct now)
    with st have m: "tid \<in> set (inflight s)"
      and s': "s' = s\<lparr>queue := progress_callback (queue s) tid stage pct now\<rparr>"
      by (auto split: if_splits)
    show ?thesis unfolding s' running_inv_def
      using d r m by (auto simp: distinct_exec lookup_progress split: if_splits)
  next
    case (Finish tid out now)
    with st have m: "tid \<in> set (inflight s)"
      and s': "s' = s\<lparr>queue := fst (process_task_resume (queue s) tid out now),
                     inflight := remove1 tid (inflight s)\<rparr>"
      by (auto split: if_splits)
    from ni Finish have nb: "\<And>x. out \<noteq> RaisesBaseException x" by auto
    have "k \<in> set (remove1 tid (inflight s))"
      if l: "map_of (tasks (fst (process_task_resume (queue s) tid out now))) k = Some t'"
        and rs: "running_status (status t')" for k t'
    proof (cases "k = tid")
      case True
      with l nb rs show ?thesis
        by (cases out) (auto simp: lookup_resume apply_update_fields running_status_def)
    next
      case False
      with l have "map_of (tasks (queue s)) k = Some t'" by (simp add: lookup_resume)
      from r [OF this rs] False show ?thesis by simp
    qed
    with d show ?thesis unfolding s' running_inv_def by (simp add: distinct_exec)
  next
    case (Poll tid)
    with st have s': "s' = s\<lparr>queue := fst (get_task (queue s) tid)\<rparr>" by simp
    show ?thesis unfolding s' running_inv_def
      using d r by (auto simp: distinct_ops lookup_get_task split: if_splits option.splits)
  next
    case (Delete tid)
    with st have s': "s' = s\<lparr>queue := fst (delete_task (queue s) tid)\<rparr>" by simp
    show ?thesis unfolding s' running_inv_def
      using d r by (auto simp: distinct_ops lookup_delete_task split: if_splits)
  next
    case (Sweep h now)
    with st have s': "s' = s\<lparr>queue := cleanup_old_tasks (queue s) h now\<rparr>" by simp
    show ?thesis unfolding s' running_inv_def
      using d r by (auto simp: distinct_ops lookup_cleanup split: if_splits)
  qed
qed

lemma run_running_inv:
  "run s es = Some s' \<Longrightarrow> running_inv s \<Longrightarrow> \<forall>e \<in> set es. \<not> interrupted e \<Longrightarrow> running_inv s'"
proof (induction es arbitrary: s)
  case Nil
  then show ?case by simp
next
  case (Cons e es)
  then show ?case by (auto split: option.splits dest: step_running_inv)
qed

lemma init_running_inv: "running_inv (sched_init C)"
  by (simp add: running_inv_def sched_init_def TaskQueue_init_def)

lemma processing_le_inflight:
  assumes "running_inv s"
  shows "processing (get_stats (queue s)) \<le> length (inflight s)"
proof -
  let ?xs = "filter (\<lambda>p. running_status (status (snd p))) (tasks (queue s))"
  from assms have d: "distinct (map fst (tasks (queue s)))"
    and r: "\<And>k t. map_of (tasks (queue s)) k = Some t \<Longrightarrow> running_status (status t) \<Longrightarrow>
              k \<in> set (inflight s)"
    by (auto simp: running_inv_def)
  have "processing (get_stats (queue s)) = length ?xs"
    unfolding get_stats_def sum_ones_filter
    by (simp add: running_status_def filter_map comp_def)
  also have "\<dots> = length (map fst ?xs)" by simp
  also have "\<dots> = card (set (map fst ?xs))"
    using d by (simp only: distinct_card distinct_map_filter)
  also have "\<dots> \<le> card (set (inflight s))"
  proof (rule card_mono)
    show "finite (set (inflight s))" by simp
    show "set (map fst ?xs) \<subseteq> set (inflight s)"
    proof
      fix k assume "k \<in> set (map fst ?xs)"
      then obtain t where "(k, t) \<in> set (tasks (queue s))" and rs: "running_status (status t)"
        by auto
      with d have "map_of (tasks (queue s)) k = Some t" by simp
      from r [OF this rs] show "k \<in> set (inflight s)" .
    qed
  qed
  also have "\<dots> \<le> length (inflight s)" by (rule card_length)
  finally show ?thesis .
qed

text \<open>
  C1. Whatever events happen on a queue of capacity \<open>C\<close>, and however many jobs are
  uploaded, at most \<open>C\<close> executions are inside the body of \<^verbatim>\<open>process_task\<close> at any
  moment (and \<^verbatim>\<open>_running_tasks\<close> never holds more than \<open>C\<close> ids); when \<open>C\<close> executions
  are in flight, no parked execution can be admitted: it waits for a slot. In the
  store, the number of records with a running status (the \<open>processing\<close> count of
  \<^verbatim>\<open>get_stats\<close>) is at most \<open>C\<close> as well, as long as no pipeline call has ended with an
  exception outside \<^verbatim>\<open>Exception\<close>, which frees the slot and leaves the status running.
\<close>

theorem at_most_C_running:
  assumes "run (sched_init C) es = Some s"
  shows "length (inflight s) \<le> C \<and> card (running_tasks (queue s)) \<le> C
         \<and> (length (inflight s) = C \<longrightarrow> step s (Admit tid now) = None)
         \<and> ((\<forall>e \<in> set es. \<not> interrupted e) \<longrightarrow> processing (get_stats (queue s)) \<le> C)"
proof -
  from run_slots_inv [OF assms init_slots_inv]
  have sem: "semaphore (queue s) + length (inflight s) = C"
    and sub: "running_tasks (queue s) \<subseteq> set (inflight s)"
    by (simp_all add: slots_inv_def)
  from sem have a: "length (inflight s) \<le> C" by simp
  have "card (running_tasks (queue s)) \<le> card (set (inflight s))"
    using sub by (simp add: card_mono)
  also have "\<dots> \<le> length (inflight s)" by (rule card_length)
  finally have b: "card (running_tasks (queue s)) \<le> C" using a by simp
  have c: "length (inflight s) = C \<longrightarrow> step s (Admit tid now) = None"
    using sem by (simp add: acquire_def)
  have d: "processing (get_stats (queue s)) \<le> C" if "\<forall>e \<in> set es. \<not> interrupted e"
    using processing_le_inflight [OF run_running_inv [OF assms init_running_inv that]] a
    by simp
  from a b c d show ?thesis by blast
qed

lemmas eval_defs =
  sched_init_def TaskQueue_init_def create_task_def acquire_def process_task_enter_def
  update_task_def apply_update_def set_status_def leave_def release_def falsy_def
  process_task_resume_def set_result_def default_options_def

theorem at_most_C_running_witness:
  "\<exists>s. run (sched_init 2) burst = Some s \<and> length (inflight s) = 2
     \<and> card (running_tasks (queue s)) \<le> 2 \<and> step s (Admit ''c'' 6) = None
     \<and> (\<forall>e \<in> set burst. \<not> interrupted e)
     \<and> pending (get_stats (queue s)) = 1 \<and> processing (get_stats (queue s)) \<le> 2"
proof -
  have "\<exists>s. run (sched_init 2) burst = Some s \<and> length (inflight s) = 2
          \<and> pending (get_stats (queue s)) = 1"
    by (simp add: burst_def eval_defs get_stats_def)
  then obtain s where r: "run (sched_init 2) burst = Some s" and l: "length (inflight s) = 2"
    and p: "pending (get_stats (queue s)) = 1"
    by blast
  have n: "\<forall>e \<in> set burst. \<not> interrupted e" by (simp add: burst_def)
  from at_most_C_running [OF r, of "''c''" 6] l r p n show ?thesis by blast
qed

lemma run_callbacks_frame [simp]:
  "semaphore (run_callbacks q tid evs) = semaphore q"
  "running_tasks (run_callbacks q tid evs) = running_tasks q"
  "task_results (run_callbacks q tid evs) = task_results q"
  unfolding run_callbacks_def
  by (induction evs arbitrary: q) (simp_all split: prod.splits)

lemma process_task_semaphore:
  assumes "0 < semaphore q"
  shows "\<exists>q' e. process_task q tid t0 evs outcome t1 = Some (q', e) \<and> semaphore q' = semaphore q"
proof -
  from assms obtain q1 where a: "acquire q = Some q1" by (simp add: acquire_def)
  obtain q2 r where en: "process_task_enter q1 tid t0 = (q2, r)" by (cases "process_task_enter q1 tid t0")
  show ?thesis
  proof (cases r)
    case Returned
    with a en enter_Returned [of q1 tid t0 q2] acquire_Some [OF a] show ?thesis
      by (simp add: process_task_def)
  next
    case (AtPipeline path opts)
    obtain q' e where re: "process_task_resume (run_callbacks q2 tid evs) tid outcome t1 = (q', e)"
      by (cases "process_task_resume (run_callbacks q2 tid evs) tid outcome t1")
    have "semaphore q' = Suc (semaphore q2)"
      using resume_frame(1) [of "run_callbacks q2 tid evs" tid outcome t1] re by simp
    with AtPipeline a en re enter_AtPipeline [of q1 tid t0 q2 path opts] acquire_Some [OF a]
    show ?thesis by (simp add: process_task_def)
  qed
qed

text \<open>
  C2. Every execution gives its slot back exactly once, however the pipeline call ends
  (result, fault, or an exception that is not caught): the end of the body adds one to
  the free slots, and a whole execution leaves their number as it found it. So in every
  reachable state of the scheduler the free slots and the executions in flight add up
  to \<open>C\<close>, and once no execution is in flight all \<open>C\<close> slots are free again.
\<close>

theorem slots_conserved:
  "(run (sched_init C) es = Some s \<longrightarrow>
      semaphore (queue s) + length (inflight s) = C
      \<and> (inflight s = [] \<longrightarrow> semaphore (queue s) = C))
   \<and> semaphore (fst (process_task_resume q tid outcome now)) = semaphore q + 1
   \<and> (0 < semaphore q \<longrightarrow>
        (\<exists>q' e. process_task q tid t0 evs outcome t1 = Some (q', e)
           \<and> semaphore q' = semaphore q))"
proof -
  have "semaphore (queue s) + length (inflight s) = C
      \<and> (inflight s = [] \<longrightarrow> semaphore (queue s) = C)" if "run (sched_init C) es = Some s"
    using run_slots_inv [OF that init_slots_inv] by (auto simp: slots_inv_def)
  then show ?thesis
    using process_task_semaphore [of q tid t0 evs outcome t1] by simp
qed

theorem slots_conserved_witness:
  "\<exists>s. run (sched_init 2) all_fail = Some s \<and> parked s = [] \<and> inflight s = []
        \<and> semaphore (queue s) = 2
        \<and> 0 < semaphore (create_task (TaskQueue_init 1) ''a'' ''a.wav'' default_options 0)
        \<and> (\<exists>q' e. process_task (create_task (TaskQueue_init 1) ''a'' ''a.wav'' default_options 0)
                     ''a'' 1 [] (RaisesException ''boom'') 2 = Some (q', e)
              \<and> semaphore q' = 1)"
proof -
  have "\<exists>s. run (sched_init 2) all_fail = Some s \<and> parked s = [] \<and> inflight s = []"
    by (simp add: all_fail_def burst_def eval_defs)
  then obtain s where r: "run (sched_init 2) all_fail = Some s"
    and p: "parked s = []" and i: "inflight s = []"
    by blast
  have pos: "0 < semaphore (create_task (TaskQueue_init 1) ''a'' ''a.wav'' default_options 0)"
    by (simp add: TaskQueue_init_def)
  from slots_conserved [of 2 all_fail s
      "create_task (TaskQueue_init 1) ''a'' ''a.wav'' default_options 0" "''a''"
      "RaisesException ''boom''" 2 1 "[]" 2] r p i pos
  show ?thesis by (simp add: TaskQueue_init_def)
qed

section \<open>Unknown job ids\<close>

text \<open>
  C6. For an id that is not in the store, \<^verbatim>\<open>update_task\<close> returns normally and leaves the
  whole queue as it is, and the delete route answers with the not-found response (status
  404) and leaves the queue as it is; no other exception arises.
\<close>

theorem unknown_id_is_harmless:
  assumes "map_of (tasks q) tid = None"
  shows "update_task q tid st pr msg err now = q
         \<and> delete_task q tid =
             (q, Inl (HTTPException 404 (''Task '' @ quoted tid @ '' not found.'')))"
  using assms by (simp add: update_task_def delete_task_def get_task_def)

theorem unknown_id_is_harmless_witness:
  "map_of (tasks one_job) ''zz'' = None
   \<and> update_task one_job ''zz'' (Some FAILED) (Some 50) (Some ''m'') (Some ''e'') 7 = one_job
   \<and> delete_task one_job ''zz'' =
        (one_job, Inl (HTTPException 404 (''Task '' @ quoted ''zz'' @ '' not found.'')))"
proof -
  have h: "map_of (tasks one_job) ''zz'' = None"
    by (simp add: one_job_def create_task_def TaskQueue_init_def)
  from unknown_id_is_harmless [OF h] h show ?thesis by blast
qed

section \<open>Progress values\<close>

text \<open>
  C9. The claim is that \<open>progress\<close> stays within 0 and 100 after any updates. The model
  class declares that range, but \<^verbatim>\<open>update_task\<close> assigns the value it is given without
  a check: a callback reporting 150 leaves 150 in the record, and an update with -5
  leaves -5.
\<close>

theorem progress_out_of_range:
  "map_option progress
     (map_of (tasks (progress_callback one_job ''a'' ''transcribing'' 150 1001)) ''a'') = Some 150
   \<and> \<not> (150 \<le> (100::real))
   \<and> map_option progress
     (map_of (tasks (update_task one_job ''a'' None (Some (- 5)) None None 1001)) ''a'') = Some (- 5)
   \<and> \<not> (0 \<le> (- 5::real))"
  by (simp add: progress_callback_def lookup_update_task one_job_def create_task_def
      TaskQueue_init_def apply_update_def set_status_def)

section \<open>The end of the pipeline call\<close>

lemma progress_callback_unfinished:
  assumes "map_of (tasks q) tid = Some t" and "error t = None" and "result t = None"
  shows "\<exists>t'. map_of (tasks (progress_callback q tid stage pct now)) tid = Some t' \<and> unfinished t'"
proof -
  let ?s = "case status_map stage of None \<Rightarrow> PROCESSING | Some s \<Rightarrow> s"
  have "?s \<noteq> COMPLETED" and "?s \<noteq> FAILED"
    using status_map_running [of stage] by auto
  with assms show ?thesis
    by (simp add: progress_callback_def lookup_update_task apply_update_fields unfinished_def)
qed

lemma run_callbacks_unfinished:
  assumes "map_of (tasks q) tid = Some t" and "unfinished t"
  shows "\<exists>t'. map_of (tasks (run_callbacks q tid evs)) tid = Some t' \<and> unfinished t'"
  using assms
proof (induction evs arbitrary: q t)
  case Nil
  then show ?case by (simp add: run_callbacks_def)
next
  case (Cons ev evs)
  obtain stage pct now where ev: "ev = (stage, pct, now)" by (cases ev)
  from Cons.prems progress_callback_unfinished [of q tid t stage pct now]
  obtain t1 where "map_of (tasks (progress_callback q tid stage pct now)) tid = Some t1"
    and "unfinished t1"
    by (auto simp: unfinished_def)
  from Cons.IH [OF this] show ?case by (simp add: run_callbacks_def ev)
qed

lemma enter_existing:
  assumes "map_of (tasks q) tid = Some t" and "\<not> falsy (audio_path t)"
  shows "\<exists>q2 path opts. process_task_enter q tid now = (q2, AtPipeline path opts)
     \<and> map_of (tasks q2) tid = Some (apply_update t (Some PROCESSING) (Some 0)
          (Some ''Starting transcription'') None now)
     \<and> task_results q2 = task_results q"
  using assms by (simp add: process_task_enter_def Let_def lookup_update_task)

lemma enter_no_path:
  assumes "map_of (tasks q) tid = Some t" and "falsy (audio_path t)"
  shows "\<exists>q2. process_task_enter q tid now = (q2, Returned)
     \<and> map_of (tasks q2) tid = Some (apply_update t (Some FAILED) None None
          (Some ''Audio path not found'') now)
     \<and> task_results q2 = task_results q"
  using assms by (simp add: process_task_enter_def Let_def lookup_update_task)

lemma resume_fault:
  assumes "map_of (tasks q) tid = Some t"
  shows "map_of (tasks (fst (process_task_resume q tid (RaisesException msg) now))) tid =
     Some (t\<lparr>status := FAILED, completed_at := Some now,
             message := ''Transcription failed'', error := Some msg\<rparr>)"
  using assms
  by (simp add: process_task_resume_def lookup_update_task apply_update_def set_status_def)

lemma resume_result:
  assumes "map_of (tasks q) tid = Some t"
  shows "map_of (tasks (fst (process_task_resume q tid (Returns r) now))) tid =
     Some (t\<lparr>status := COMPLETED, completed_at := Some now, progress := 100,
             message := ''Transcription completed successfully''\<rparr>)
     \<and> task_results (fst (process_task_resume q tid (Returns r) now)) tid = Some r"
  using assms
  by (simp add: process_task_resume_def lookup_update_task apply_update_def set_status_def
      set_result_def)

lemma resume_base:
  "tasks (fst (process_task_resume q tid (RaisesBaseException e) now)) = tasks q"
  "task_results (fst (process_task_resume q tid (RaisesBaseException e) now)) = task_results q"
  by (simp_all add: process_task_resume_def)

lemma resume_propagates:
  "snd (process_task_resume q tid outcome now) =
     (case outcome of RaisesBaseException e \<Rightarrow> Some e | _ \<Rightarrow> None)"
  by (simp add: process_task_resume_def split: pipeline_outcome.splits)

lemma run_callbacks_exists:
  assumes "map_of (tasks q) tid = Some t"
  shows "\<exists>t'. map_of (tasks (run_callbacks q tid evs)) tid = Some t'"
  using assms
proof (induction evs arbitrary: q t)
  case Nil
  then show ?case by (simp add: run_callbacks_def)
next
  case (Cons ev evs)
  obtain stage pct now where ev: "ev = (stage, pct, now)" by (cases ev)
  from Cons.prems obtain t1 where
    "map_of (tasks (progress_callback q tid stage pct now)) tid = Some t1"
    by (simp add: progress_callback_def lookup_update_task)
  from Cons.IH [OF this] show ?case by (simp add: run_callbacks_def ev)
qed

text \<open>
  C3. When the pipeline call raises an exception \<open>e\<close> (an instance of \<^verbatim>\<open>Exception\<close>),
  nothing propagates out of \<^verbatim>\<open>process_task\<close>, and the job's record, if it is still in
  the store, gets status \<open>FAILED\<close>, \<^verbatim>\<open>str(e)\<close> unchanged as \<open>error\<close>, the clock reading as
  \<open>completed_at\<close> and the message \<^verbatim>\<open>Transcription failed\<close>; its other fields stay. For a
  whole execution on a record with an audio path: it returns normally and the record is
  \<open>FAILED\<close> with that error.
\<close>

theorem pipeline_fault_marks_failed:
  "snd (process_task_resume q tid (RaisesException msg) now) = None
   \<and> (map_of (tasks q) tid = Some t \<longrightarrow>
        map_of (tasks (fst (process_task_resume q tid (RaisesException msg) now))) tid =
          Some (t\<lparr>status := FAILED, completed_at := Some now,
                  message := ''Transcription failed'', error := Some msg\<rparr>))
   \<and> (map_of (tasks q) tid = Some t \<and> \<not> falsy (audio_path t) \<and> 0 < semaphore q \<longrightarrow>
        (\<exists>q' r. process_task q tid t0 evs (RaisesException msg) t1 = Some (q', None)
           \<and> map_of (tasks q') tid = Some r
           \<and> status r = FAILED \<and> error r = Some msg \<and> completed_at r = Some t1))"
proof -
  have a: "snd (process_task_resume q tid (RaisesException msg) now) = None"
    by (simp add: resume_propagates)
  have c: "\<exists>q' r. process_task q tid t0 evs (RaisesException msg) t1 = Some (q', None)
           \<and> map_of (tasks q') tid = Some r
           \<and> status r = FAILED \<and> error r = Some msg \<and> completed_at r = Some t1"
    if t: "map_of (tasks q) tid = Some t" and p: "\<not> falsy (audio_path t)" and s: "0 < semaphore q"
  proof -
    from s obtain q1 where q1: "acquire q = Some q1" by (simp add: acquire_def)
    with t have t1: "map_of (tasks q1) tid = Some t" using acquire_Some [OF q1] by simp
    from enter_existing [OF t1 p, of t0] obtain q2 path opts t2 where
      en: "process_task_enter q1 tid t0 = (q2, AtPipeline path opts)"
      and t2: "map_of (tasks q2) tid = Some t2"
      by blast
    from run_callbacks_exists [OF t2] obtain t3 where
      t3: "map_of (tasks (run_callbacks q2 tid evs)) tid = Some t3"
      by blast
    let ?res = "process_task_resume (run_callbacks q2 tid evs) tid (RaisesException msg) t1"
    have "process_task q tid t0 evs (RaisesException msg) t1 = Some ?res"
      using q1 en by (simp add: process_task_def)
    moreover have "?res = (fst ?res, None)"
      using resume_propagates [of "run_callbacks q2 tid evs" tid "RaisesException msg" t1]
      by (simp add: prod_eq_iff)
    ultimately have "process_task q tid t0 evs (RaisesException msg) t1 = Some (fst ?res, None)"
      by simp
    with resume_fault [OF t3, of msg t1] show ?thesis by simp
  qed
  from a c resume_fault show ?thesis by blast
qed

theorem pipeline_fault_marks_failed_witness:
  "map_of (tasks one_job) ''a'' \<noteq> None
   \<and> 0 < semaphore one_job
   \<and> (\<exists>q' r. process_task one_job ''a'' 1001 [(''transcribing'', 10, 1002)]
                (RaisesException ''CUDA out of memory'') 1003 = Some (q', None)
         \<and> map_of (tasks q') ''a'' = Some r
         \<and> status r = FAILED \<and> error r = Some ''CUDA out of memory''
         \<and> completed_at r = Some 1003)"
proof -
  have "\<exists>t. map_of (tasks one_job) ''a'' = Some t \<and> \<not> falsy (audio_path t)"
    by (simp add: one_job_def create_task_def TaskQueue_init_def falsy_def)
  then obtain t where h: "map_of (tasks one_job) ''a'' = Some t" and p: "\<not> falsy (audio_path t)"
    by blast
  have s: "0 < semaphore one_job"
    by (simp add: one_job_def TaskQueue_init_def)
  from pipeline_fault_marks_failed [of one_job "''a''" "''CUDA out of memory''" 0 t 1001
      "[(''transcribing'', 10, 1002)]" 1003] h p s
  show ?thesis by simp
qed

text \<open>
  One execution of a job created under a fresh id, with nothing else in between: it
  returns, and the record is \<open>COMPLETED\<close> exactly when the pipeline returned a result,
  \<open>FAILED\<close> exactly when the audio path was empty or the pipeline raised a fault.
\<close>

lemma single_execution_outcome:
  assumes "task_results q0 tid = None" and "0 < semaphore q0"
  shows "\<exists>q' e r. process_task (create_task q0 tid path opts tc) tid t0 evs outcome t1 = Some (q', e)
     \<and> snd (get_task q' tid) = Some r
     \<and> (result r \<noteq> None \<longleftrightarrow> status r = COMPLETED)
     \<and> (task_results q' tid \<noteq> None \<longleftrightarrow> status r = COMPLETED)
     \<and> (error r \<noteq> None \<longleftrightarrow> status r = FAILED)
     \<and> (status r = COMPLETED \<or> status r = FAILED \<longrightarrow> (result r = None) \<noteq> (error r = None))
     \<and> (status r = COMPLETED \<or> status r = FAILED \<longleftrightarrow> e = None)
     \<and> (status r = COMPLETED \<longleftrightarrow> path \<noteq> [] \<and> (\<exists>res. outcome = Returns res))
     \<and> (status r = FAILED \<longleftrightarrow> path = [] \<or> (\<exists>m. outcome = RaisesException m))"
proof -
  let ?q = "create_task q0 tid path opts tc"
  let ?t = "\<lparr>task_id = tid, status = PENDING, progress = 0, message = ''Task queued'',
           created_at = tc, started_at = None, completed_at = None, error = None,
           result = None, audio_path = Some path, options = Some opts\<rparr>"
  from assms(2) obtain q1 where q1: "acquire ?q = Some q1" by (simp add: acquire_def)
  from acquire_Some [OF q1] lookup_create_task [of q0 tid path opts tc] assms(1)
  have t: "map_of (tasks q1) tid = Some ?t" and r1: "task_results q1 tid = None"
    by simp_all
  show ?thesis
  proof (cases "path = []")
    case True
    then have "falsy (audio_path ?t)" by (simp add: falsy_def)
    from enter_no_path [OF t this, of t0] obtain q2 where
      en: "process_task_enter q1 tid t0 = (q2, Returned)"
      and t2: "map_of (tasks q2) tid = Some (apply_update ?t (Some FAILED) None None
          (Some ''Audio path not found'') t0)"
      and r2: "task_results q2 = task_results q1"
      by blast
    have p: "process_task ?q tid t0 evs outcome t1 = Some (q2, None)"
      using q1 en by (simp add: process_task_def)
    from get_task_no_result [OF t2] r1 r2
    have g: "snd (get_task q2 tid) = Some (apply_update ?t (Some FAILED) None None
          (Some ''Audio path not found'') t0)"
      by simp
    show ?thesis
      using p g r1 r2 True by (simp add: apply_update_def set_status_def)
  next
    case False
    then have "\<not> falsy (audio_path ?t)" by (simp add: falsy_def)
    from enter_existing [OF t this, of t0] obtain q2 p' opts' where
      en: "process_task_enter q1 tid t0 = (q2, AtPipeline p' opts')"
      and t2: "map_of (tasks q2) tid = Some (apply_update ?t (Some PROCESSING) (Some 0)
          (Some ''Starting transcription'') None t0)"
      and r2: "task_results q2 = task_results q1"
      by blast
    have "unfinished (apply_update ?t (Some PROCESSING) (Some 0)
          (Some ''Starting transcription'') None t0)"
      by (simp add: unfinished_def apply_update_def set_status_def)
    from run_callbacks_unfinished [OF t2 this, of evs] obtain t3 where
      t3: "map_of (tasks (run_callbacks q2 tid evs)) tid = Some t3" and u3: "unfinished t3"
      by blast
    let ?q3 = "run_callbacks q2 tid evs"
    have r3: "task_results ?q3 tid = None" using r1 r2 by simp
    have p: "process_task ?q tid t0 evs outcome t1 = Some (process_task_resume ?q3 tid outcome t1)"
      using q1 en by (simp add: process_task_def)
    show ?thesis
    proof (cases outcome)
      case (Returns res)
      let ?q' = "fst (process_task_resume ?q3 tid (Returns res) t1)"
      from resume_result [OF t3, of res t1]
      have t4: "map_of (tasks ?q') tid = Some (t3\<lparr>status := COMPLETED, completed_at := Some t1,
             progress := 100, message := ''Transcription completed successfully''\<rparr>)"
        and r4: "task_results ?q' tid = Some res"
        by simp_all
      from get_task_with_result [OF t4 r4] p Returns False u3 r4
        resume_propagates [of ?q3 tid outcome t1]
      show ?thesis
        by (cases "process_task_resume ?q3 tid (Returns res) t1") (simp add: unfinished_def)
    next
      case (RaisesException m)
      let ?q' = "fst (process_task_resume ?q3 tid (RaisesException m) t1)"
      have r4: "task_results ?q' tid = None"
        using r3 by (simp add: process_task_resume_def)
      from get_task_no_result [OF resume_fault [OF t3, of m t1] r4] p RaisesException False u3 r4
        resume_propagates [of ?q3 tid outcome t1]
      show ?thesis
        by (cases "process_task_resume ?q3 tid (RaisesException m) t1") (simp add: unfinished_def)
    next
      case (RaisesBaseException m)
      let ?q' = "fst (process_task_resume ?q3 tid (RaisesBaseException m) t1)"
      have t4: "map_of (tasks ?q') tid = Some t3" and r4: "task_results ?q' tid = None"
        using t3 r3 by (simp_all add: resume_base)
      from get_task_no_result [OF t4 r4] p RaisesBaseException False u3 r4
        resume_propagates [of ?q3 tid outcome t1]
      show ?thesis
        by (cases "process_task_resume ?q3 tid (RaisesBaseException m) t1")
          (simp add: unfinished_def)
    qed
  qed
qed

section \<open>Result and error of a record\<close>

lemma consistent_fresh:
  "consistent \<lparr>task_id = tid, status = PENDING, progress = 0, message = m,
           created_at = now, started_at = None, completed_at = None, error = None,
           result = None, audio_path = Some path, options = Some opts\<rparr> None"
  by (simp add: consistent_def)

lemma consistent_running:
  assumes "consistent t r" and "status t \<noteq> COMPLETED" and "status t \<noteq> FAILED"
    and "s \<noteq> COMPLETED" and "s \<noteq> FAILED"
  shows "consistent (apply_update t (Some s) pr msg None now) r"
  using assms by (simp add: consistent_def apply_update_fields)

lemma consistent_failed:
  assumes "consistent t r" and "status t \<noteq> COMPLETED"
  shows "consistent (apply_update t (Some FAILED) pr msg (Some e) now) r"
  using assms by (simp add: consistent_def apply_update_fields)

lemma consistent_completed:
  assumes "consistent t r" and "status t \<noteq> COMPLETED" and "status t \<noteq> FAILED"
  shows "consistent (apply_update t (Some COMPLETED) pr msg None now) (Some res)"
  using assms by (simp add: consistent_def apply_update_fields)

lemma consistent_join:
  assumes "consistent t (Some r)"
  shows "consistent (t\<lparr>result := Some r\<rparr>) (Some r)"
  using assms by (auto simp: consistent_def)

lemma consistent_join_status [simp]: "status (t\<lparr>result := x\<rparr>) = status t"
  by simp

lemma jobs_okI:
  assumes "distinct (ps @ fs)"
    and "\<And>k t. map_of (tasks q) k = Some t \<Longrightarrow> consistent t (task_results q k)"
    and "\<And>k t. map_of (tasks q) k = Some t \<Longrightarrow> k \<in> set ps \<union> set fs \<Longrightarrow>
           status t \<noteq> COMPLETED \<and> status t \<noteq> FAILED"
  shows "jobs_ok q ps fs"
  using assms unfolding jobs_ok_def by blast

lemma jobs_ok_distinct: "jobs_ok q ps fs \<Longrightarrow> distinct (ps @ fs)"
  by (simp add: jobs_ok_def)

lemma jobs_ok_consistent:
  "jobs_ok q ps fs \<Longrightarrow> map_of (tasks q) k = Some t \<Longrightarrow> consistent t (task_results q k)"
  by (simp add: jobs_ok_def)

lemma jobs_ok_pending:
  "jobs_ok q ps fs \<Longrightarrow> map_of (tasks q) k = Some t \<Longrightarrow> k \<in> set ps \<union> set fs \<Longrightarrow>
   status t \<noteq> COMPLETED \<and> status t \<noteq> FAILED"
  unfolding jobs_ok_def by blast

lemma upload_jobs_ok:
  assumes ok: "jobs_ok q ps fs" and "tid \<notin> set ps" and "tid \<notin> set fs"
    and "task_results q tid = None"
  shows "jobs_ok (create_task q tid path opts now) (ps @ [tid]) fs"
proof (rule jobs_okI)
  show "distinct ((ps @ [tid]) @ fs)"
    using jobs_ok_distinct [OF ok] assms(2,3) by auto
next
  fix k t
  assume l: "map_of (tasks (create_task q tid path opts now)) k = Some t"
  show "consistent t (task_results (create_task q tid path opts now) k)"
  proof (cases "k = tid")
    case True
    with l assms(4) show ?thesis by (auto simp: lookup_create_task' consistent_fresh)
  next
    case False
    with l jobs_ok_consistent [OF ok, of k t] show ?thesis by (simp add: lookup_create_task')
  qed
  show "status t \<noteq> COMPLETED \<and> status t \<noteq> FAILED" if "k \<in> set (ps @ [tid]) \<union> set fs"
  proof (cases "k = tid")
    case True
    with l show ?thesis by (auto simp: lookup_create_task')
  next
    case False
    with l that jobs_ok_pending [OF ok, of k t] show ?thesis by (simp add: lookup_create_task')
  qed
qed

lemma distinct_remove1_append:
  assumes "distinct (ps @ fs)" and "tid \<in> set ps"
  shows "distinct (remove1 tid ps @ fs)" and "distinct (remove1 tid ps @ tid # fs)"
    and "tid \<notin> set (remove1 tid ps)" and "tid \<notin> set fs"
  using assms by auto

lemma admit_jobs_ok:
  assumes ok: "jobs_ok q ps fs" and m: "tid \<in> set ps"
  shows "jobs_ok (fst (process_task_enter q tid now)) (remove1 tid ps)
           (case snd (process_task_enter q tid now) of
              Returned \<Rightarrow> fs | AtPipeline path opts \<Rightarrow> tid # fs)"
proof (rule jobs_okI)
  let ?q' = "fst (process_task_enter q tid now)"
  let ?fs' = "case snd (process_task_enter q tid now) of
              Returned \<Rightarrow> fs | AtPipeline path opts \<Rightarrow> tid # fs"
  note d = distinct_remove1_append [OF jobs_ok_distinct [OF ok] m]
  show "distinct (remove1 tid ps @ ?fs')"
    using d by (simp split: entered.splits)
  fix k t'
  assume l: "map_of (tasks ?q') k = Some t'"
  show "consistent t' (task_results ?q' k)"
  proof (cases "k = tid")
    case True
    with l obtain t where t: "map_of (tasks q) tid = Some t"
      and t': "t' = (if falsy (audio_path t)
                        then apply_update t (Some FAILED) None None
                               (Some ''Audio path not found'') now
                        else apply_update t (Some PROCESSING) (Some 0)
                               (Some ''Starting transcription'') None now)"
      by (auto simp: lookup_enter)
    from jobs_ok_pending [OF ok t] m have "status t \<noteq> COMPLETED" "status t \<noteq> FAILED" by auto
    with jobs_ok_consistent [OF ok t] show ?thesis
      unfolding t' True lookup_enter by (simp add: consistent_running consistent_failed)
  next
    case False
    with l jobs_ok_consistent [OF ok, of k t'] show ?thesis by (simp add: lookup_enter)
  qed
  show "status t' \<noteq> COMPLETED \<and> status t' \<noteq> FAILED" if k: "k \<in> set (remove1 tid ps) \<union> set ?fs'"
  proof (cases "k = tid")
    case True
    with l obtain t where t: "map_of (tasks q) tid = Some t"
      and t': "t' = (if falsy (audio_path t)
                        then apply_update t (Some FAILED) None None
                               (Some ''Audio path not found'') now
                        else apply_update t (Some PROCESSING) (Some 0)
                               (Some ''Starting transcription'') None now)"
      by (auto simp: lookup_enter)
    from k True d have "snd (process_task_enter q tid now) \<noteq> Returned"
      by (auto split: entered.splits)
    with t have "\<not> falsy (audio_path t)" by (simp add: enter_kind)
    with t' show ?thesis by (simp add: apply_update_fields)
  next
    case False
    with k have "k \<in> set ps \<union> set fs"
      by (auto split: entered.splits dest: notin_set_remove1)
    with False l jobs_ok_pending [OF ok, of k t'] show ?thesis by (simp add: lookup_enter)
  qed
qed

lemma progress_jobs_ok:
  assumes ok: "jobs_ok q ps fs" and m: "tid \<in> set fs"
  shows "jobs_ok (progress_callback q tid stage pct now) ps fs"
proof (rule jobs_okI)
  let ?q' = "progress_callback q tid stage pct now"
  let ?s = "case status_map stage of None \<Rightarrow> PROCESSING | Some s \<Rightarrow> s"
  have ns: "?s \<noteq> COMPLETED" "?s \<noteq> FAILED" using status_map_running [of stage] by auto
  show "distinct (ps @ fs)" by (rule jobs_ok_distinct [OF ok])
  fix k t'
  assume l: "map_of (tasks ?q') k = Some t'"
  show "consistent t' (task_results ?q' k)"
  proof (cases "k = tid")
    case True
    with l obtain t where t: "map_of (tasks q) tid = Some t"
      and t': "t' = apply_update t (Some ?s) (Some pct) (Some (''Status: '' @ stage)) None now"
      by (auto simp: lookup_progress)
    from jobs_ok_pending [OF ok t] m have "status t \<noteq> COMPLETED" "status t \<noteq> FAILED" by auto
    with jobs_ok_consistent [OF ok t] ns show ?thesis
      unfolding t' True by (simp add: consistent_running)
  next
    case False
    with l jobs_ok_consistent [OF ok, of k t'] show ?thesis by (simp add: lookup_progress)
  qed
  show "status t' \<noteq> COMPLETED \<and> status t' \<noteq> FAILED" if k: "k \<in> set ps \<union> set fs"
  proof (cases "k = tid")
    case True
    with l ns show ?thesis by (auto simp: lookup_progress apply_update_fields)
  next
    case False
    with k l jobs_ok_pending [OF ok, of k t'] show ?thesis by (simp add: lookup_progress)
  qed
qed

lemma finish_jobs_ok:
  assumes ok: "jobs_ok q ps fs" and m: "tid \<in> set fs"
  shows "jobs_ok (fst (process_task_resume q tid out now)) ps (remove1 tid fs)"
proof (rule jobs_okI)
  let ?q' = "fst (process_task_resume q tid out now)"
  from jobs_ok_distinct [OF ok] m
  have d: "distinct (ps @ remove1 tid fs)" "tid \<notin> set ps" "tid \<notin> set (remove1 tid fs)"
    by auto
  show "distinct (ps @ remove1 tid fs)" by (rule d)
  fix k t'
  assume l: "map_of (tasks ?q') k = Some t'"
  show "consistent t' (task_results ?q' k)"
  proof (cases "k = tid")
    case True
    with l obtain t where t: "map_of (tasks q) tid = Some t"
      and t': "t' = (case out of
            Returns r \<Rightarrow> apply_update t (Some COMPLETED) (Some 100)
                           (Some ''Transcription completed successfully'') None now
          | RaisesException e \<Rightarrow> apply_update t (Some FAILED) None
                           (Some ''Transcription failed'') (Some e) now
          | RaisesBaseException e \<Rightarrow> t)"
      by (auto simp: lookup_resume)
    from jobs_ok_pending [OF ok t] m have "status t \<noteq> COMPLETED" "status t \<noteq> FAILED" by auto
    with jobs_ok_consistent [OF ok t] show ?thesis
      unfolding t' True lookup_resume
      by (cases out) (simp_all add: consistent_completed consistent_failed)
  next
    case False
    with l jobs_ok_consistent [OF ok, of k t'] show ?thesis
      by (cases out) (simp_all add: lookup_resume)
  qed
  show "status t' \<noteq> COMPLETED \<and> status t' \<noteq> FAILED" if k: "k \<in> set ps \<union> set (remove1 tid fs)"
  proof -
    from k d have ne: "k \<noteq> tid" by auto
    with k have "k \<in> set ps \<union> set fs" by (auto dest: notin_set_remove1)
    with ne l jobs_ok_pending [OF ok, of k t'] show ?thesis by (simp add: lookup_resume)
  qed
qed

lemma poll_jobs_ok:
  assumes ok: "jobs_ok q ps fs"
  shows "jobs_ok (fst (get_task q tid)) ps fs"
proof (rule jobs_okI)
  let ?q' = "fst (get_task q tid)"
  show "distinct (ps @ fs)" by (rule jobs_ok_distinct [OF ok])
  fix k t'
  assume l: "map_of (tasks ?q') k = Some t'"
  have *: "consistent t' (task_results q k) \<and> (\<exists>t. map_of (tasks q) k = Some t \<and> status t = status t')"
  proof (cases "k = tid \<and> task_results q tid \<noteq> None")
    case True
    then obtain r where r: "task_results q tid = Some r" by auto
    with True l obtain t where t: "map_of (tasks q) tid = Some t" and t': "t' = t\<lparr>result := Some r\<rparr>"
      by (auto simp: lookup_get_task)
    from jobs_ok_consistent [OF ok t] r have "consistent t (Some r)" by simp
    from consistent_join [OF this] True r t t' show ?thesis by simp
  next
    case False
    with l have "map_of (tasks q) k = Some t'"
      by (auto simp: lookup_get_task split: if_splits)
    with jobs_ok_consistent [OF ok this] show ?thesis by simp
  qed
  then show "consistent t' (task_results ?q' k)" by simp
  show "status t' \<noteq> COMPLETED \<and> status t' \<noteq> FAILED" if k: "k \<in> set ps \<union> set fs"
    using * k jobs_ok_pending [OF ok, of k] by auto
qed

lemma delete_jobs_ok:
  assumes ok: "jobs_ok q ps fs"
  shows "jobs_ok (fst (delete_task q tid)) ps fs"
proof (rule jobs_okI)
  let ?q' = "fst (delete_task q tid)"
  show "distinct (ps @ fs)" by (rule jobs_ok_distinct [OF ok])
  fix k t'
  assume l: "map_of (tasks ?q') k = Some t'"
  then have ne: "k \<noteq> tid" and old: "map_of (tasks q) k = Some t'"
    by (auto simp: lookup_delete_task split: if_splits)
  from ne jobs_ok_consistent [OF ok old]
  show "consistent t' (task_results ?q' k)" by (simp add: lookup_delete_task)
  show "status t' \<noteq> COMPLETED \<and> status t' \<noteq> FAILED" if k: "k \<in> set ps \<union> set fs"
    using k jobs_ok_pending [OF ok old] by simp
qed

lemma sweep_jobs_ok:
  assumes ok: "jobs_ok q ps fs"
  shows "jobs_ok (cleanup_old_tasks q h now) ps fs"
proof (rule jobs_okI)
  let ?q' = "cleanup_old_tasks q h now"
  show "distinct (ps @ fs)" by (rule jobs_ok_distinct [OF ok])
  fix k t'
  assume l: "map_of (tasks ?q') k = Some t'"
  then have ne: "k \<notin> set (old_tasks q h now)" and old: "map_of (tasks q) k = Some t'"
    by (auto simp: lookup_cleanup split: if_splits)
  from ne jobs_ok_consistent [OF ok old]
  show "consistent t' (task_results ?q' k)" by (simp add: lookup_cleanup)
  show "status t' \<noteq> COMPLETED \<and> status t' \<noteq> FAILED" if k: "k \<in> set ps \<union> set fs"
    using k jobs_ok_pending [OF ok old] by simp
qed

lemma jobs_ok_cong:
  "tasks q1 = tasks q \<Longrightarrow> task_results q1 = task_results q \<Longrightarrow>
   jobs_ok q1 ps fs = jobs_ok q ps fs"
  by (simp add: jobs_ok_def)

lemma dom_lookups:
  "dom (map_of (tasks (create_task q tid path opts now))) = insert tid (dom (map_of (tasks q)))"
  "dom (map_of (tasks (fst (process_task_enter q tid now)))) = dom (map_of (tasks q))"
  "dom (map_of (tasks (progress_callback q tid stage pct now))) = dom (map_of (tasks q))"
  "dom (map_of (tasks (fst (process_task_resume q tid out now)))) = dom (map_of (tasks q))"
  "dom (map_of (tasks (fst (get_task q tid)))) = dom (map_of (tasks q))"
  "dom (map_of (tasks (fst (delete_task q tid)))) \<subseteq> dom (map_of (tasks q))"
  "dom (map_of (tasks (cleanup_old_tasks q h now))) \<subseteq> dom (map_of (tasks q))"
  by (auto simp: lookup_create_task' lookup_enter lookup_progress lookup_resume lookup_get_task
      lookup_delete_task lookup_cleanup domIff split: if_splits option.splits)

lemma dom_results:
  "dom (task_results (fst (process_task_resume q tid out now))) \<subseteq> insert tid (dom (task_results q))"
  "dom (task_results (fst (delete_task q tid))) \<subseteq> dom (task_results q)"
  "dom (task_results (cleanup_old_tasks q h now)) \<subseteq> dom (task_results q)"
  by (auto simp: lookup_resume lookup_delete_task lookup_cleanup domIff
      split: if_splits pipeline_outcome.splits)

lemma step_jobs_inv:
  assumes st: "step s e = Some s'" and inv: "jobs_inv s" and fresh: "set (upload_id e) \<inter> ids s = {}"
  shows "jobs_inv s' \<and> ids s' \<subseteq> ids s \<union> set (upload_id e)"
proof (cases e)
  case (Upload tid path opts now)
  with st have s': "s' = s\<lparr>queue := create_task (queue s) tid path opts now,
      parked := parked s @ [tid]\<rparr>"
    by simp
  from fresh Upload have "tid \<notin> set (parked s)" "tid \<notin> set (inflight s)"
    "task_results (queue s) tid = None"
    by (auto simp: ids_def)
  from upload_jobs_ok [OF inv [unfolded jobs_inv_def] this]
  show ?thesis unfolding s' Upload by (auto simp: jobs_inv_def ids_def dom_lookups)
next
  case (Admit tid now)
  with st obtain q1 where m: "tid \<in> set (parked s)" and a: "acquire (queue s) = Some q1"
    by (auto split: if_splits option.splits)
  from acquire_Some [OF a] have eq: "tasks q1 = tasks (queue s)"
    "task_results q1 = task_results (queue s)"
    by simp_all
  let ?fs = "case snd (process_task_enter q1 tid now) of
              Returned \<Rightarrow> inflight s | AtPipeline path opts \<Rightarrow> tid # inflight s"
  from Admit st m a have s': "s' = s\<lparr>queue := fst (process_task_enter q1 tid now),
      parked := remove1 tid (parked s), inflight := ?fs\<rparr>"
    by (cases "process_task_enter q1 tid now") (auto split: entered.splits)
  from inv have "jobs_ok q1 (parked s) (inflight s)"
    by (simp add: jobs_inv_def jobs_ok_cong [OF eq])
  from admit_jobs_ok [OF this m, of now] have 1: "jobs_inv s'"
    unfolding s' by (simp add: jobs_inv_def)
  have "set ?fs \<subseteq> insert tid (set (inflight s))" by (auto split: entered.splits)
  with m have 2: "ids s' \<subseteq> ids s"
    unfolding s' using set_remove1_subset [of tid "parked s"]
    by (auto simp: ids_def dom_lookups lookup_enter eq)
  from 1 2 show ?thesis by auto
next
  case (Progress tid stage pct now)
  with st have m: "tid \<in> set (inflight s)"
    and s': "s' = s\<lparr>queue := progress_callback (queue s) tid stage pct now\<rparr>"
    by (auto split: if_splits)
  from progress_jobs_ok [OF inv [unfolded jobs_inv_def] m]
  show ?thesis unfolding s' by (auto simp: jobs_inv_def ids_def dom_lookups)
next
  case (Finish tid out now)
  with st have m: "tid \<in> set (inflight s)"
    and s': "s' = s\<lparr>queue := fst (process_task_resume (queue s) tid out now),
                   inflight := remove1 tid (inflight s)\<rparr>"
    by (auto split: if_splits)
  from finish_jobs_ok [OF inv [unfolded jobs_inv_def] m, of out now] have 1: "jobs_inv s'"
    unfolding s' by (simp add: jobs_inv_def)
  have 2: "ids s' \<subseteq> ids s"
    unfolding s' using m set_remove1_subset [of tid "inflight s"]
      dom_results(1) [of "queue s" tid out now]
    by (auto simp: ids_def dom_lookups)
  from 1 2 show ?thesis by auto
next
  case (Poll tid)
  with st have s': "s' = s\<lparr>queue := fst (get_task (queue s) tid)\<rparr>" by simp
  from poll_jobs_ok [OF inv [unfolded jobs_inv_def]]
  show ?thesis unfolding s' by (auto simp: jobs_inv_def ids_def dom_lookups)
next
  case (Delete tid)
  with st have s': "s' = s\<lparr>queue := fst (delete_task (queue s) tid)\<rparr>" by simp
  from delete_jobs_ok [OF inv [unfolded jobs_inv_def], of tid] have 1: "jobs_inv s'"
    unfolding s' by (simp add: jobs_inv_def)
  have 2: "ids s' \<subseteq> ids s"
    unfolding s' using dom_lookups(6) [of "queue s" tid] dom_results(2) [of "queue s" tid]
    by (auto simp: ids_def)
  from 1 2 show ?thesis by auto
next
  case (Sweep h now)
  with st have s': "s' = s\<lparr>queue := cleanup_old_tasks (queue s) h now\<rparr>" by simp
  from sweep_jobs_ok [OF inv [unfolded jobs_inv_def], of h now] have 1: "jobs_inv s'"
    unfolding s' by (simp add: jobs_inv_def)
  have 2: "ids s' \<subseteq> ids s"
    unfolding s' using dom_lookups(7) [of "queue s" h now] dom_results(3) [of "queue s" h now]
    by (auto simp: ids_def)
  from 1 2 show ?thesis by auto
qed

lemma run_jobs_inv:
  assumes "run s es = Some s'" and "jobs_inv s" and "distinct (uploads es)"
    and "set (uploads es) \<inter> ids s = {}"
  shows "jobs_inv s'"
  using assms
proof (induction es arbitrary: s)
  case Nil
  then show ?case by simp
next
  case (Cons e es)
  from Cons.prems(1) obtain s1 where st: "step s e = Some s1" and r: "run s1 es = Some s'"
    by (auto split: option.splits)
  from Cons.prems(3,4) have f: "set (upload_id e) \<inter> ids s = {}"
    and d: "distinct (uploads es)" and dj: "set (upload_id e) \<inter> set (uploads es) = {}"
    and f2: "set (uploads es) \<inter> ids s = {}"
    by (auto simp: uploads_def)
  from step_jobs_inv [OF st Cons.prems(2) f]
  have i1: "jobs_inv s1" and sub: "ids s1 \<subseteq> ids s \<union> set (upload_id e)" by auto
  from sub dj f2 have "set (uploads es) \<inter> ids s1 = {}" by auto
  from Cons.IH [OF r i1 d this] show ?case .
qed

lemma init_jobs_inv: "jobs_inv (sched_init C)" "ids (sched_init C) = {}"
  by (simp_all add: jobs_inv_def jobs_ok_def ids_def sched_init_def TaskQueue_init_def)

text \<open>
  C4. In every state the scheduler can reach when each upload creates its own id, and
  for every record of the store: \<^verbatim>\<open>get_task\<close> returns the record with a result exactly
  when its status is \<open>COMPLETED\<close>, which is also exactly when a result is stored for the
  id, and with an error exactly when its status is \<open>FAILED\<close>. So a record that has
  reached a terminal state has exactly one of result and error, the one of its status.
\<close>

theorem terminal_record_has_result_xor_error:
  assumes "run (sched_init C) es = Some s" and "distinct (uploads es)"
    and "map_of (tasks (queue s)) k = Some t"
  shows "\<exists>r. snd (get_task (queue s) k) = Some r \<and> status r = status t
     \<and> (result r \<noteq> None \<longleftrightarrow> status r = COMPLETED)
     \<and> (task_results (queue s) k \<noteq> None \<longleftrightarrow> status r = COMPLETED)
     \<and> (error r \<noteq> None \<longleftrightarrow> status r = FAILED)
     \<and> (status r = COMPLETED \<or> status r = FAILED \<longrightarrow> (result r = None) \<noteq> (error r = None))"
proof -
  from run_jobs_inv [OF assms(1) init_jobs_inv(1) assms(2)]
  have "jobs_inv s" by (simp add: init_jobs_inv)
  from jobs_ok_consistent [OF this [unfolded jobs_inv_def] assms(3)]
  have c: "consistent t (task_results (queue s) k)" .
  show ?thesis
  proof (cases "task_results (queue s) k")
    case None
    with assms(3) have "snd (get_task (queue s) k) = Some t" by (simp add: get_task_def)
    with c None show ?thesis by (auto simp: consistent_def)
  next
    case (Some r)
    with assms(3) have "snd (get_task (queue s) k) = Some (t\<lparr>result := Some r\<rparr>)"
      by (simp add: get_task_def)
    with c Some show ?thesis by (auto simp: consistent_def)
  qed
qed

theorem terminal_record_has_result_xor_error_witness:
  "\<exists>s ta tb ra rb. run (sched_init 2) mixed_run = Some s \<and> distinct (uploads mixed_run)
     \<and> map_of (tasks (queue s)) ''a'' = Some ta \<and> map_of (tasks (queue s)) ''b'' = Some tb
     \<and> snd (get_task (queue s) ''a'') = Some ra \<and> snd (get_task (queue s) ''b'') = Some rb
     \<and> status ra = COMPLETED \<and> result ra \<noteq> None \<and> error ra = None
     \<and> status rb = FAILED \<and> result rb = None \<and> error rb \<noteq> None"
proof -
  have "\<exists>s ta tb. run (sched_init 2) mixed_run = Some s
     \<and> map_of (tasks (queue s)) ''a'' = Some ta \<and> map_of (tasks (queue s)) ''b'' = Some tb
     \<and> status ta = COMPLETED \<and> status tb = FAILED"
    by (simp add: mixed_run_def eval_defs progress_callback_def status_map_def get_task_def)
  then obtain s ta tb where r: "run (sched_init 2) mixed_run = Some s"
    and a: "map_of (tasks (queue s)) ''a'' = Some ta" and b: "map_of (tasks (queue s)) ''b'' = Some tb"
    and sa: "status ta = COMPLETED" and sb: "status tb = FAILED"
    by blast
  have d: "distinct (uploads mixed_run)" by (simp add: mixed_run_def uploads_def)
  from terminal_record_has_result_xor_error [OF r d a] terminal_record_has_result_xor_error [OF r d b]
    r d a b sa sb
  show ?thesis by (auto simp del: not_None_eq)
qed

section \<open>Terminal records\<close>






section \<open>Deletion while the execution is in flight\<close>


section \<open>The sweeper\<close>

lemma step_distinct:
  assumes "step s e = Some s'" and "distinct (map fst (tasks (queue s)))"
  shows "distinct (map fst (tasks (queue s')))"
proof (cases e)
  case (Admit tid now)
  with assms(1) obtain q1 where a: "acquire (queue s) = Some q1"
    and s': "queue s' = fst (process_task_enter q1 tid now)"
    by (auto split: if_splits option.splits prod.splits entered.splits)
  from acquire_Some [OF a] assms(2) have "distinct (map fst (tasks q1))" by simp
  then show ?thesis unfolding s' by (rule distinct_exec)
qed (use assms in \<open>auto simp: distinct_ops distinct_exec split: if_splits\<close>)

lemma run_distinct:
  "run s es = Some s' \<Longrightarrow> distinct (map fst (tasks (queue s))) \<Longrightarrow>
   distinct (map fst (tasks (queue s')))"
proof (induction es arbitrary: s)
  case Nil
  then show ?case by simp
next
  case (Cons e es)
  then show ?case by (auto split: option.splits dest: step_distinct)
qed




end
